theory Spec2Isabelle
  imports Complex_Main "HOL-Library.Char_ord" "HOL-Library.List_Lexorder"
begin

section \<open>The sparse-amplitude quantum simulator of \<^verbatim>\<open>my_simulator.py\<close>\<close>

text \<open>
  The simulator keeps one Python dictionary from basis states (strings of the characters
  \<^verbatim>\<open>0\<close> and \<^verbatim>\<open>1\<close>) to complex amplitudes.  The dictionary is modelled as an association
  list with distinct keys in insertion order, which is the order Python iterates in.
  Amplitudes are Python \<^verbatim>\<open>complex\<close> values; they are modelled by the exact complex numbers
  of HOL, so rounding of IEEE doubles is outside the model.  Exceptions are values of a sum
  type, and the random draw of the measurement is a parameter.
\<close>

subsection \<open>Python primitives\<close>

datatype error = IndexError | ValueError

definition ebind :: "error + 'a \<Rightarrow> ('a \<Rightarrow> error + 'b) \<Rightarrow> error + 'b" where
  "ebind m f = (case m of Inl e \<Rightarrow> Inl e | Inr x \<Rightarrow> f x)"

text \<open>A \<^verbatim>\<open>for\<close> loop whose body may raise: the first exception ends the loop.\<close>

fun efold :: "('a \<Rightarrow> 's \<Rightarrow> error + 's) \<Rightarrow> 'a list \<Rightarrow> 's \<Rightarrow> error + 's" where
  "efold f [] s = Inr s"
| "efold f (x # xs) s = (case f x s of Inl e \<Rightarrow> Inl e | Inr s' \<Rightarrow> efold f xs s')"

text \<open>Sequence indexing \<^verbatim>\<open>xs[i]\<close>: a negative index counts from the end.\<close>

definition py_index :: "nat \<Rightarrow> int \<Rightarrow> error + nat" where
  "py_index n i =
     (if 0 \<le> i \<and> i < int n then Inr (nat i)
      else if - int n \<le> i \<and> i < 0 then Inr (nat (int n + i))
      else Inl IndexError)"

definition py_getitem :: "'a list \<Rightarrow> int \<Rightarrow> error + 'a" where
  "py_getitem xs i = ebind (py_index (length xs) i) (\<lambda>j. Inr (xs ! j))"

definition py_setitem :: "'a list \<Rightarrow> int \<Rightarrow> 'a \<Rightarrow> error + 'a list" where
  "py_setitem xs i v = ebind (py_index (length xs) i) (\<lambda>j. Inr (xs[j := v]))"

text \<open>\<^verbatim>\<open>int(c)\<close> for a one-character string.\<close>

definition py_int :: "char \<Rightarrow> error + nat" where
  "py_int c =
     (if c = CHR ''0'' then Inr 0 else if c = CHR ''1'' then Inr 1
      else if c = CHR ''2'' then Inr 2 else if c = CHR ''3'' then Inr 3
      else if c = CHR ''4'' then Inr 4 else if c = CHR ''5'' then Inr 5
      else if c = CHR ''6'' then Inr 6 else if c = CHR ''7'' then Inr 7
      else if c = CHR ''8'' then Inr 8 else if c = CHR ''9'' then Inr 9
      else Inl ValueError)"

text \<open>\<^verbatim>\<open>str(row_index)\<close> for the two values of \<^verbatim>\<open>range(2)\<close>.\<close>

definition py_str :: "nat \<Rightarrow> char" where
  "py_str r = (if r = 0 then CHR ''0'' else CHR ''1'')"

subsection \<open>The dictionary of amplitudes\<close>

type_synonym register = "(string \<times> complex) list"

text \<open>\<^verbatim>\<open>d[k] = v\<close>: an existing key keeps its place, a new key goes to the end.\<close>

fun dict_set :: "string \<Rightarrow> complex \<Rightarrow> register \<Rightarrow> register" where
  "dict_set k v [] = [(k, v)]"
| "dict_set k v ((k', v') # d) =
     (if k' = k then (k, v) # d else (k', v') # dict_set k v d)"

text \<open>\<^verbatim>\<open>d.get(k, complex(0.0, 0.0))\<close>\<close>

definition dict_get :: "register \<Rightarrow> string \<Rightarrow> complex" where
  "dict_get d k = (case map_of d k of None \<Rightarrow> 0 | Some a \<Rightarrow> a)"

record QuantumComputer =
  num_qubits :: int
  amplitudes :: register

subsection \<open>Construction\<close>

text \<open>
  \<^verbatim>\<open>'0' * num_qubits\<close> is the empty string when \<^verbatim>\<open>num_qubits\<close> is zero or negative.
  The constructor has no \<^verbatim>\<open>raise\<close>; it returns in the right summand always.
\<close>

definition init :: "int \<Rightarrow> error + QuantumComputer" where
  "init n =
     (let initial_state = replicate (nat n) CHR ''0''
      in Inr \<lparr>num_qubits = n, amplitudes = dict_set initial_state (Complex 1 0) []\<rparr>)"

definition get_amplitude :: "QuantumComputer \<Rightarrow> string \<Rightarrow> complex" where
  "get_amplitude qc basis_state = dict_get (amplitudes qc) basis_state"

subsection \<open>Single-qubit gates\<close>

type_synonym gate = "complex list list"

text \<open>The body of the loop over \<^verbatim>\<open>row_index\<close>.\<close>

definition gate_row :: "gate \<Rightarrow> int \<Rightarrow> string \<Rightarrow> complex \<Rightarrow> nat \<Rightarrow> nat \<Rightarrow> register
    \<Rightarrow> error + register" where
  "gate_row gate_matrix target_qubit basis_state current_amp bit_to_change row_index next_amplitudes =
     ebind (py_getitem gate_matrix (int row_index)) (\<lambda>row.
     ebind (py_getitem row (int bit_to_change)) (\<lambda>m.
       let amp_contribution = m * current_amp in
       if cmod amp_contribution < 1 / 10 ^ 9 then Inr next_amplitudes
       else
         ebind (py_setitem basis_state target_qubit (py_str row_index)) (\<lambda>new_basis_state.
           let current_total = dict_get next_amplitudes new_basis_state
           in Inr (dict_set new_basis_state (current_total + amp_contribution) next_amplitudes))))"

text \<open>The body of the loop over the items of the dictionary.\<close>

definition gate_item :: "gate \<Rightarrow> int \<Rightarrow> string \<times> complex \<Rightarrow> register \<Rightarrow> error + register" where
  "gate_item gate_matrix target_qubit item next_amplitudes =
     (case item of (basis_state, current_amp) \<Rightarrow>
        ebind (py_getitem basis_state target_qubit) (\<lambda>c.
        ebind (py_int c) (\<lambda>bit_to_change.
          efold (gate_row gate_matrix target_qubit basis_state current_amp bit_to_change)
            [0, 1] next_amplitudes)))"

definition gate_loop :: "gate \<Rightarrow> int \<Rightarrow> register \<Rightarrow> error + register" where
  "gate_loop gate_matrix target_qubit amps = efold (gate_item gate_matrix target_qubit) amps []"

definition apply_gate :: "gate \<Rightarrow> int \<Rightarrow> QuantumComputer \<Rightarrow> error + QuantumComputer" where
  "apply_gate gate_matrix target_qubit qc =
     ebind (gate_loop gate_matrix target_qubit (amplitudes qc)) (\<lambda>next_amplitudes.
       Inr (qc\<lparr>amplitudes := next_amplitudes\<rparr>))"

subsection \<open>The controlled bit flip\<close>

text \<open>The first loop collects the pairs of states to swap.\<close>

definition swap_candidate :: "int \<Rightarrow> int \<Rightarrow> string \<Rightarrow> (string \<times> string) list
    \<Rightarrow> error + (string \<times> string) list" where
  "swap_candidate control_qubit target_qubit basis_state states_to_swap =
     ebind (py_getitem basis_state control_qubit) (\<lambda>c.
       if c = CHR ''1'' then
         ebind (py_getitem basis_state target_qubit) (\<lambda>tc.
         ebind (py_setitem basis_state target_qubit
                  (if tc = CHR ''0'' then CHR ''1'' else CHR ''0'')) (\<lambda>partner_state.
           if (partner_state, basis_state) \<notin> set states_to_swap
           then Inr (states_to_swap @ [(basis_state, partner_state)])
           else Inr states_to_swap))
       else Inr states_to_swap)"

text \<open>The second loop exchanges the two amplitudes of each pair, in the dictionary itself.\<close>

definition swap_pair :: "string \<times> string \<Rightarrow> register \<Rightarrow> register" where
  "swap_pair p amps =
     (case p of (state_a, state_b) \<Rightarrow>
        let amp_a = dict_get amps state_a;
            amp_b = dict_get amps state_b
        in dict_set state_b amp_a (dict_set state_a amp_b amps))"

definition entangle_loop :: "int \<Rightarrow> int \<Rightarrow> register \<Rightarrow> error + register" where
  "entangle_loop control_qubit target_qubit amps =
     ebind (efold (swap_candidate control_qubit target_qubit) (map fst amps) [])
       (\<lambda>states_to_swap. Inr (fold swap_pair states_to_swap amps))"

definition entangle_qubits :: "int \<Rightarrow> int \<Rightarrow> QuantumComputer \<Rightarrow> error + QuantumComputer" where
  "entangle_qubits control_qubit target_qubit qc =
     ebind (entangle_loop control_qubit target_qubit (amplitudes qc)) (\<lambda>amps.
       Inr (qc\<lparr>amplitudes := amps\<rparr>))"

subsection \<open>Measurement\<close>

text \<open>
  \<^verbatim>\<open>sorted(self.amplitudes.items())\<close> compares the pairs by their keys, which are distinct
  in a dictionary, so the amplitudes are never compared.  The walk returns the state at which
  the draw is first below the accumulated probability.
\<close>

fun walk :: "real \<Rightarrow> real \<Rightarrow> register \<Rightarrow> string option" where
  "walk rand cumulative_prob [] = None"
| "walk rand cumulative_prob ((basis_state, amp) # rest) =
     (let cumulative_prob' = cumulative_prob + (cmod amp) ^ 2
      in if rand < cumulative_prob' then Some basis_state
         else walk rand cumulative_prob' rest)"

definition collapse_to_measurement :: "real \<Rightarrow> QuantumComputer \<Rightarrow> QuantumComputer \<times> string" where
  "collapse_to_measurement rand qc =
     (let sorted_states = sort_key fst (amplitudes qc) in
      case walk rand 0 sorted_states of
        Some basis_state \<Rightarrow> (qc\<lparr>amplitudes := [(basis_state, Complex 1 0)]\<rparr>, basis_state)
      | None \<Rightarrow> (qc, if sorted_states \<noteq> [] then fst (last sorted_states) else ''''))"

subsection \<open>The gates provided\<close>

definition Hadamard :: gate where
  "Hadamard =
     [[complex_of_real (1 / sqrt 2), complex_of_real (1 / sqrt 2)],
      [complex_of_real (1 / sqrt 2), complex_of_real (- 1 / sqrt 2)]]"

definition PauliX :: gate where
  "PauliX = [[0, 1], [1, 0]]"

subsection \<open>Notions used in the statements\<close>

text \<open>The entry \<open>1/\<surd>2\<close> of the Hadamard matrix.\<close>

definition h :: complex where
  "h = complex_of_real (1 / sqrt 2)"

text \<open>
  The scenario of the driver script: a computer of two qubits, the Hadamard gate on
  qubit 0, the controlled flip with control 0 and target 1.
\<close>

definition bell_scenario :: "error + QuantumComputer" where
  "bell_scenario =
     ebind (init 2) (\<lambda>qc. ebind (apply_gate Hadamard 0 qc) (entangle_qubits 0 1))"

definition bell_pair :: register where
  "bell_pair = [(''00'', h), (''11'', h)]"

text \<open>The probability \<^verbatim>\<open>abs(amp)**2\<close> of an item of the dictionary.\<close>

definition prob :: "string \<times> complex \<Rightarrow> real" where
  "prob item = (cmod (snd item)) ^ 2"

text \<open>A basis state of \<open>n\<close> qubits, and a dictionary whose keys are such states.\<close>

definition bitstring :: "nat \<Rightarrow> string \<Rightarrow> bool" where
  "bitstring n s \<longleftrightarrow> length s = n \<and> set s \<subseteq> {CHR ''0'', CHR ''1''}"

definition wf_register :: "nat \<Rightarrow> register \<Rightarrow> bool" where
  "wf_register n d \<longleftrightarrow> distinct (map fst d) \<and> (\<forall>k\<in>fst ` set d. bitstring n k)"

text \<open>A matrix of two rows of two entries.\<close>

definition gate_2x2 :: "gate \<Rightarrow> bool" where
  "gate_2x2 M \<longleftrightarrow> length M = 2 \<and> (\<forall>row\<in>set M. length row = 2)"

text \<open>The partner of a state: the bit at the target position flipped, as the first loop of
  \<^verbatim>\<open>entangle_qubits\<close> computes it.\<close>

definition partner :: "nat \<Rightarrow> string \<Rightarrow> string" where
  "partner t s = s[t := (if s ! t = CHR ''0'' then CHR ''1'' else CHR ''0'')]"

text \<open>The states that take part in a swap: those present with control bit 1, and their partners.\<close>

definition swap_set :: "nat \<Rightarrow> nat \<Rightarrow> register \<Rightarrow> string set" where
  "swap_set c t d = {k. \<exists>v\<in>fst ` set d. v ! c = CHR ''1'' \<and> (k = v \<or> k = partner t v)}"

text \<open>
  The first loop of \<^verbatim>\<open>entangle_qubits\<close> on a state whose indices are in range, the
  states named by a list of pairs, and the invariant of the first loop over the states
  \<open>V\<close> visited so far.
\<close>

definition pair_step :: "nat \<Rightarrow> nat \<Rightarrow> string \<Rightarrow> (string \<times> string) list \<Rightarrow> (string \<times> string) list" where
  "pair_step c t s P =
     (if s ! c = CHR ''1'' \<and> (partner t s, s) \<notin> set P then P @ [(s, partner t s)] else P)"

definition flat :: "(string \<times> string) list \<Rightarrow> string list" where
  "flat P = concat (map (\<lambda>(a, b). [a, b]) P)"

definition pairs_inv :: "nat \<Rightarrow> nat \<Rightarrow> string set \<Rightarrow> (string \<times> string) list \<Rightarrow> bool" where
  "pairs_inv c t V P \<longleftrightarrow>
     distinct (flat P)
     \<and> (\<forall>(a, b)\<in>set P. a \<in> V \<and> a ! c = CHR ''1'' \<and> b = partner t a)
     \<and> (\<forall>v\<in>V. v ! c = CHR ''1'' \<longrightarrow> v \<in> set (flat P))"

text \<open>
  The gate applicator on a state whose target index is in range, with a matrix of two rows
  of two entries: the bit read at the target, one turn of the loop over \<^verbatim>\<open>row_index\<close>,
  one turn of the loop over the items, and a contribution with the pruning written as 0.
\<close>

definition bit_of :: "char \<Rightarrow> nat" where
  "bit_of c = (if c = CHR ''1'' then 1 else 0)"

definition kept :: "complex \<Rightarrow> complex" where
  "kept z = (if cmod z < 1 / 10 ^ 9 then 0 else z)"

definition row_step :: "gate \<Rightarrow> nat \<Rightarrow> string \<Rightarrow> complex \<Rightarrow> nat \<Rightarrow> register \<Rightarrow> register" where
  "row_step M t s a r acc =
     (let z = M ! r ! bit_of (s ! t) * a in
      if cmod z < 1 / 10 ^ 9 then acc
      else dict_set (s[t := py_str r]) (dict_get acc (s[t := py_str r]) + z) acc)"

definition item_step :: "gate \<Rightarrow> nat \<Rightarrow> string \<times> complex \<Rightarrow> register \<Rightarrow> register" where
  "item_step M t x acc = row_step M t (fst x) (snd x) 1 (row_step M t (fst x) (snd x) 0 acc)"

text \<open>A unitary matrix: two rows of two entries, with orthonormal columns.\<close>

definition unitary :: "gate \<Rightarrow> bool" where
  "unitary M \<longleftrightarrow> gate_2x2 M \<and>
     (let a = M ! 0 ! 0; b = M ! 0 ! 1; c = M ! 1 ! 0; d = M ! 1 ! 1
      in cnj a * a + cnj c * c = 1 \<and> cnj b * b + cnj d * d = 1 \<and> cnj a * b + cnj c * d = 0)"

text \<open>What one item of the old register adds to the amplitude of the state \<open>k\<close>.\<close>

definition contrib :: "gate \<Rightarrow> nat \<Rightarrow> string \<times> complex \<Rightarrow> string \<Rightarrow> complex" where
  "contrib M t x k =
     (if k = (fst x)[t := CHR ''0''] then kept (M ! 0 ! bit_of (fst x ! t) * snd x) else 0)
     + (if k = (fst x)[t := CHR ''1''] then kept (M ! 1 ! bit_of (fst x ! t) * snd x) else 0)"

text \<open>
  A register of \<open>n + 1\<close> qubits that holds every basis state: the states are listed with
  those of first bit 0 before those of first bit 1, and the amplitude of a state depends on its
  first bit only.  The two amplitudes are chosen so that the squared magnitudes of the
  register of 21 qubits add up to 1.  The rotation is a real unitary matrix.
\<close>

fun bitstrings :: "nat \<Rightarrow> string list" where
  "bitstrings 0 = [[]]"
| "bitstrings (Suc n) = map ((#) CHR ''0'') (bitstrings n) @ map ((#) CHR ''1'') (bitstrings n)"

definition amp_a :: real where
  "amp_a = 15999999999991 / 16384000000009216"

definition amp_b :: real where
  "amp_b = 24000000 / 16384000000009216"

definition skew_register :: "nat \<Rightarrow> register" where
  "skew_register n =
     map (\<lambda>s. (s, complex_of_real (if s ! 0 = CHR ''0'' then amp_a else amp_b)))
       (bitstrings (Suc n))"

definition rotation :: gate where
  "rotation = [[4 / 5, - 3 / 5], [3 / 5, 4 / 5]]"

section \<open>Evaluation of the primitives\<close>

lemma Complex_1_0: "Complex 1 0 = 1"
  by (simp add: complex_eq_iff)

lemma sqrt2_bounds: "1 < sqrt 2" "sqrt 2 < 2"
  by (simp_all add: real_less_lsqrt)

lemma cmod_h: "cmod h = 1 / sqrt 2"
  by (simp add: h_def norm_divide)

lemma h_kept: "\<not> cmod h < 1 / 10 ^ 9"
  using sqrt2_bounds by (simp add: cmod_h field_simps)

lemma prob_h: "(cmod h)\<^sup>2 = 1 / 2"
  by (simp add: cmod_h power_divide)

lemmas py_defs = ebind_def py_getitem_def py_setitem_def py_index_def py_int_def py_str_def

lemma Hadamard_h: "Hadamard = [[h, h], [h, - h]]"
  by (simp add: Hadamard_def h_def)

section \<open>The entangled pair of the driver script\<close>

lemma init_2: "init 2 = Inr \<lparr>num_qubits = 2, amplitudes = [(''00'', 1)]\<rparr>"
  by (simp add: init_def Complex_1_0 numeral_2_eq_2)

lemma hadamard_00:
  "gate_loop Hadamard 0 [(''00'', 1)] = Inr [(''00'', h), (''10'', h)]"
  using h_kept
  by (simp add: Hadamard_h gate_loop_def gate_item_def gate_row_def py_defs dict_get_def)

lemma entangle_00_10:
  "entangle_loop 0 1 [(''00'', h), (''10'', h)] = Inr [(''00'', h), (''10'', 0), (''11'', h)]"
  by (simp add: entangle_loop_def swap_candidate_def swap_pair_def py_defs dict_get_def)

lemma bell_scenario_eval:
  "bell_scenario = Inr \<lparr>num_qubits = 2, amplitudes = [(''00'', h), (''10'', 0), (''11'', h)]\<rparr>"
  by (simp add: bell_scenario_def init_2 apply_gate_def entangle_qubits_def hadamard_00
        entangle_00_10 ebind_def)

text \<open>
  C1: the scenario of the driver script, run on the code.  The register it yields has
  the three keys \<^verbatim>\<open>00\<close>, \<^verbatim>\<open>10\<close>, \<^verbatim>\<open>11\<close>: the state \<^verbatim>\<open>10\<close>, whose amplitude
  the entangling operator moved to \<^verbatim>\<open>11\<close>, stays in the dictionary with amplitude 0, so
  the result is not the register with the two entries \<^verbatim>\<open>00\<close> and \<^verbatim>\<open>11\<close>.
\<close>

theorem bell_scenario_stores_zero:
  "bell_scenario = Inr \<lparr>num_qubits = 2, amplitudes = [(''00'', h), (''10'', 0), (''11'', h)]\<rparr>
   \<and> map fst [(''00'', h), (''10'', 0 :: complex), (''11'', h)] = [''00'', ''10'', ''11'']
   \<and> dom (map_of [(''00'', h), (''10'', 0), (''11'', h)]) \<noteq> dom (map_of [(''00'', h), (''11'', h)])"
  by (simp add: bell_scenario_eval dom_def set_eq_iff)

section \<open>Construction\<close>

text \<open>
  C8, as stated, fails: a qubit count below 1 is accepted. With 0 or -3 qubits the
  constructor returns the register that maps the empty string to 1.
\<close>

theorem init_counterexample:
  "init 0 = Inr \<lparr>num_qubits = 0, amplitudes = [('''', 1)]\<rparr>
   \<and> init (- 3) = Inr \<lparr>num_qubits = - 3, amplitudes = [('''', 1)]\<rparr>"
  by (simp add: init_def Complex_1_0)

text \<open>
  C8, amended: for every qubit count \<open>n \<ge> 1\<close> construction yields the register with the
  single entry that maps the string of \<open>n\<close> zeros to 1; for every \<open>n < 1\<close> construction
  does not fail and yields the register with the single entry that maps the empty string to 1.
\<close>

theorem init_result:
  "(1 \<le> n \<longrightarrow> init n = Inr \<lparr>num_qubits = n, amplitudes = [(replicate (nat n) CHR ''0'', 1)]\<rparr>)
   \<and> (n < 1 \<longrightarrow> init n = Inr \<lparr>num_qubits = n, amplitudes = [('''', 1)]\<rparr>)"
  by (simp add: init_def Complex_1_0)

theorem init_result_witness:
  "init 3 = Inr \<lparr>num_qubits = 3, amplitudes = [(''000'', 1)]\<rparr>
   \<and> init 0 = Inr \<lparr>num_qubits = 0, amplitudes = [('''', 1)]\<rparr>"
  using init_result [of 3] init_result [of 0] by (simp add: numeral_3_eq_3)

section \<open>Measurement\<close>

text \<open>
  C6: on the Bell pair, whichever of its two keys was inserted first, the draw 0.3
  collapses to \<^verbatim>\<open>00\<close> and the draw 0.9 to \<^verbatim>\<open>11\<close>; the register afterwards has the
  chosen state as its single entry, with amplitude 1.  The same holds for the register that
  the scenario of the driver script leaves, where \<^verbatim>\<open>10\<close> is stored with amplitude 0.
\<close>

theorem measurement_bell_pair:
  "collapse_to_measurement (3 / 10) \<lparr>num_qubits = 2, amplitudes = bell_pair\<rparr>
     = (\<lparr>num_qubits = 2, amplitudes = [(''00'', 1)]\<rparr>, ''00'')
   \<and> collapse_to_measurement (9 / 10) \<lparr>num_qubits = 2, amplitudes = bell_pair\<rparr>
     = (\<lparr>num_qubits = 2, amplitudes = [(''11'', 1)]\<rparr>, ''11'')
   \<and> collapse_to_measurement (3 / 10) \<lparr>num_qubits = 2, amplitudes = rev bell_pair\<rparr>
     = (\<lparr>num_qubits = 2, amplitudes = [(''00'', 1)]\<rparr>, ''00'')
   \<and> collapse_to_measurement (9 / 10) \<lparr>num_qubits = 2, amplitudes = rev bell_pair\<rparr>
     = (\<lparr>num_qubits = 2, amplitudes = [(''11'', 1)]\<rparr>, ''11'')
   \<and> collapse_to_measurement (3 / 10)
       \<lparr>num_qubits = 2, amplitudes = [(''00'', h), (''10'', 0), (''11'', h)]\<rparr>
     = (\<lparr>num_qubits = 2, amplitudes = [(''00'', 1)]\<rparr>, ''00'')
   \<and> collapse_to_measurement (9 / 10)
       \<lparr>num_qubits = 2, amplitudes = [(''00'', h), (''10'', 0), (''11'', h)]\<rparr>
     = (\<lparr>num_qubits = 2, amplitudes = [(''11'', 1)]\<rparr>, ''11'')"
  by (simp add: collapse_to_measurement_def bell_pair_def prob_h Complex_1_0)

lemma walk_None_iff:
  "walk rand c xs = None \<longleftrightarrow>
     (\<forall>n<length xs. \<not> rand < c + sum_list (map prob (take (Suc n) xs)))"
proof (induction xs arbitrary: c)
  case Nil
  then show ?case by simp
next
  case (Cons x xs)
  obtain s a where x: "x = (s, a)" by (cases x)
  show ?case
    unfolding x by (simp add: Let_def Cons.IH All_less_Suc2 prob_def add.assoc)
qed

lemma sort_key_Nil_iff: "sort_key f xs = [] \<longleftrightarrow> xs = []"
  by (metis length_sort length_0_conv)

lemma sorted_le_last: "sorted ys \<Longrightarrow> y \<in> set ys \<Longrightarrow> y \<le> last ys"
  by (induction ys) auto

lemma last_sort_key_Max:
  assumes "xs \<noteq> []"
  shows "fst (last (sort_key fst xs)) = Max (fst ` set xs)"
proof -
  let ?ys = "map fst (sort_key fst xs)"
  have ne: "?ys \<noteq> []" using assms by (simp add: sort_key_Nil_iff)
  have "Max (set ?ys) = last ?ys"
  proof (rule Max_eqI)
    show "finite (set ?ys)" by simp
    show "\<And>y. y \<in> set ?ys \<Longrightarrow> y \<le> last ?ys"
      by (rule sorted_le_last) simp_all
    show "last ?ys \<in> set ?ys" using ne by (rule last_in_set)
  qed
  then show ?thesis using ne by (simp add: last_map)
qed

text \<open>
  C9: when the draw is below the accumulated probability at no item of the sorted
  walk, that is, at no non-empty prefix of the items in the order of their keys, the
  measurement returns the computer as it was, together with the greatest key of the
  register in the lexicographic order, or with the empty string when the register is empty.
\<close>

theorem measurement_fallback:
  assumes "\<forall>n<length (amplitudes qc).
             \<not> rand < sum_list (map prob (take (Suc n) (sort_key fst (amplitudes qc))))"
  shows "collapse_to_measurement rand qc =
           (qc, if amplitudes qc = [] then '''' else Max (fst ` set (amplitudes qc)))"
proof -
  have "walk rand 0 (sort_key fst (amplitudes qc)) = None"
    using assms by (simp add: walk_None_iff)
  then show ?thesis
    by (simp add: collapse_to_measurement_def last_sort_key_Max sort_key_Nil_iff Let_def)
qed

theorem measurement_fallback_witness:
  "collapse_to_measurement (1 / 2) \<lparr>num_qubits = 1, amplitudes = [(''1'', 1 / 2), (''0'', 1 / 2)]\<rparr>
     = (\<lparr>num_qubits = 1, amplitudes = [(''1'', 1 / 2), (''0'', 1 / 2)]\<rparr>, ''1'')
   \<and> collapse_to_measurement (1 / 2) \<lparr>num_qubits = 1, amplitudes = []\<rparr>
     = (\<lparr>num_qubits = 1, amplitudes = []\<rparr>, '''')"
  using measurement_fallback [of "\<lparr>num_qubits = 1, amplitudes = [(''1'', 1 / 2), (''0'', 1 / 2)]\<rparr>" "1 / 2"]
    measurement_fallback [of "\<lparr>num_qubits = 1, amplitudes = []\<rparr>" "1 / 2"]
  by (simp add: prob_def All_less_Suc numeral_2_eq_2 norm_divide power_divide)

section \<open>Dictionaries, indexing and loops\<close>

lemma map_of_dict_set: "map_of (dict_set k v d) = (map_of d)(k \<mapsto> v)"
  by (induction d) (auto simp: fun_eq_iff)

lemma dict_get_dict_set: "dict_get (dict_set k v d) k' = (if k' = k then v else dict_get d k')"
  by (simp add: dict_get_def map_of_dict_set)

lemma map_fst_dict_set:
  "map fst (dict_set k v d) = (if k \<in> fst ` set d then map fst d else map fst d @ [k])"
  by (induction d) (auto simp: rev_image_eqI)

lemma keys_dict_set: "fst ` set (dict_set k v d) = insert k (fst ` set d)"
  by (simp add: map_of_dict_set flip: dom_map_of_conv_image_fst)

lemma distinct_dict_set: "distinct (map fst d) \<Longrightarrow> distinct (map fst (dict_set k v d))"
  by (simp add: map_fst_dict_set)

lemma dict_get_absent: "k \<notin> fst ` set d \<Longrightarrow> dict_get d k = 0"
  using map_of_eq_None_iff [of d k] by (simp add: dict_get_def)

lemma py_getitem_nat: "i < length xs \<Longrightarrow> py_getitem xs (int i) = Inr (xs ! i)"
  by (simp add: py_getitem_def py_index_def ebind_def)

lemma py_setitem_nat: "i < length xs \<Longrightarrow> py_setitem xs (int i) v = Inr (xs[i := v])"
  by (simp add: py_setitem_def py_index_def ebind_def)

lemma py_getitem_out:
  "int (length xs) \<le> i \<or> i < - int (length xs) \<Longrightarrow> py_getitem xs i = Inl IndexError"
  by (auto simp: py_getitem_def py_index_def ebind_def)

lemma efold_pure:
  "(\<And>x s. x \<in> set xs \<Longrightarrow> f x s = Inr (g x s)) \<Longrightarrow> efold f xs s = Inr (fold g xs s)"
  by (induction xs arbitrary: s) simp_all

lemma efold_cong:
  "(\<And>x s. x \<in> set xs \<Longrightarrow> f x s = g x s) \<Longrightarrow> efold f xs s = efold g xs s"
  by (induction xs arbitrary: s) (simp_all split: sum.splits)

lemma efold_invariant:
  assumes "efold f xs s = Inr s'" "P s"
    and "\<And>x s s'. x \<in> set xs \<Longrightarrow> P s \<Longrightarrow> f x s = Inr s' \<Longrightarrow> P s'"
  shows "P s'"
  using assms
proof (induction xs arbitrary: s)
  case Nil
  then show ?case by simp
next
  case (Cons x xs)
  from Cons.prems(1) obtain s1 where s1: "f x s = Inr s1" "efold f xs s1 = Inr s'"
    by (auto split: sum.splits)
  have "P s1" using Cons.prems(3) [of x s s1] Cons.prems(2) s1 by simp
  show ?case
  proof (rule Cons.IH [OF s1(2) \<open>P s1\<close>])
    fix y t t' assume "y \<in> set xs" "P t" "f y t = Inr t'"
    then show "P t'" using Cons.prems(3) [of y t t'] by simp
  qed
qed

lemma efold_total:
  assumes "P s" and "\<And>x s. x \<in> set xs \<Longrightarrow> P s \<Longrightarrow> \<exists>s'. f x s = Inr s' \<and> P s'"
  shows "\<exists>s'. efold f xs s = Inr s' \<and> P s'"
  using assms
proof (induction xs arbitrary: s)
  case Nil
  then show ?case by simp
next
  case (Cons x xs)
  from Cons.prems obtain s1 where s1: "f x s = Inr s1" "P s1" by fastforce
  have "\<exists>s'. efold f xs s1 = Inr s' \<and> P s'"
    by (rule Cons.IH) (use s1 Cons.prems in auto)
  then show ?case by (simp add: s1)
qed

subsection \<open>Bit strings and partners\<close>

lemma bitstring_nth: "bitstring n s \<Longrightarrow> i < n \<Longrightarrow> s ! i = CHR ''0'' \<or> s ! i = CHR ''1''"
  unfolding bitstring_def using nth_mem by fastforce

lemma bitstring_update:
  "bitstring n s \<Longrightarrow> c = CHR ''0'' \<or> c = CHR ''1'' \<Longrightarrow> bitstring n (s[i := c])"
  unfolding bitstring_def using set_update_subset_insert [of s i c] by auto

lemma bitstring_partner: "bitstring n s \<Longrightarrow> bitstring n (partner t s)"
  by (simp add: partner_def bitstring_update)

lemma partner_partner: "bitstring n s \<Longrightarrow> t < n \<Longrightarrow> partner t (partner t s) = s"
  using bitstring_nth [of n s t]
  by (auto simp: partner_def bitstring_def list_update_same_conv)

lemma partner_neq: "bitstring n s \<Longrightarrow> t < n \<Longrightarrow> partner t s \<noteq> s"
  using bitstring_nth [of n s t]
  by (auto simp: partner_def bitstring_def list_update_same_conv)

lemma partner_control: "c \<noteq> t \<Longrightarrow> partner t s ! c = s ! c"
  by (simp add: partner_def)

section \<open>The controlled bit flip\<close>

lemma flat_simps [simp]:
  "flat [] = []" "flat ((a, b) # P) = a # b # flat P" "flat (P @ Q) = flat P @ flat Q"
  by (simp_all add: flat_def)

lemma set_flat: "x \<in> set (flat P) \<longleftrightarrow> (\<exists>b. (x, b) \<in> set P) \<or> (\<exists>a. (a, x) \<in> set P)"
  by (induction P) auto

lemma swap_candidate_pure:
  assumes "c < length s" "t < length s"
  shows "swap_candidate (int c) (int t) s P = Inr (pair_step c t s P)"
  using assms
  by (simp add: swap_candidate_def pair_step_def partner_def py_getitem_nat py_setitem_nat ebind_def)

lemma pairs_inv_step:
  assumes inv: "pairs_inv c t V P" and s: "s \<notin> V" "bitstring n s"
    and V: "\<forall>v\<in>V. bitstring n v" and ct: "c < n" "t < n" "c \<noteq> t"
  shows "pairs_inv c t (insert s V) (pair_step c t s P)"
proof (cases "s ! c = CHR ''1''")
  case False
  then show ?thesis using inv by (auto simp: pairs_inv_def pair_step_def)
next
  case True
  note c1 = this
  show ?thesis
  proof (cases "(partner t s, s) \<in> set P")
    case True
    then have "s \<in> set (flat P)" by (force simp: set_flat)
    then show ?thesis using inv True by (auto simp: pairs_inv_def pair_step_def)
  next
    case False
    have ps: "partner t (partner t s) = s" using s ct by (simp add: partner_partner)
    have s_notin: "s \<notin> set (flat P)"
    proof
      assume "s \<in> set (flat P)"
      then consider b where "(s, b) \<in> set P" | a where "(a, s) \<in> set P"
        by (auto simp: set_flat)
      then show False
      proof cases
        case 1
        then show False using inv s(1) by (auto simp: pairs_inv_def)
      next
        case 2
        then have a: "a \<in> V" "s = partner t a" using inv by (auto simp: pairs_inv_def)
        then have "partner t s = a" using V ct partner_partner [of n a t] by auto
        then show False using 2 False by simp
      qed
    qed
    have p_notin: "partner t s \<notin> set (flat P)"
    proof
      assume "partner t s \<in> set (flat P)"
      then consider b where "(partner t s, b) \<in> set P" | a where "(a, partner t s) \<in> set P"
        by (auto simp: set_flat)
      then show False
      proof cases
        case 1
        then have "b = partner t (partner t s)" using inv by (auto simp: pairs_inv_def)
        then show False using 1 False ps by simp
      next
        case 2
        then have a: "a \<in> V" "partner t s = partner t a" using inv by (auto simp: pairs_inv_def)
        then have "partner t (partner t s) = partner t (partner t a)" by simp
        then have "s = a" using ps a(1) V ct partner_partner [of n a t] by auto
        then show False using a(1) s(1) by simp
      qed
    qed
    have neq: "partner t s \<noteq> s" using s ct by (simp add: partner_neq)
    have step: "pair_step c t s P = P @ [(s, partner t s)]"
      using c1 False by (simp add: pair_step_def)
    show ?thesis
      unfolding step using inv s_notin p_notin neq c1
      by (auto simp: pairs_inv_def)
  qed
qed

lemma pairs_inv_fold:
  assumes "pairs_inv c t V P" "distinct ks" "set ks \<inter> V = {}"
    and "\<forall>v\<in>V \<union> set ks. bitstring n v" and "c < n" "t < n" "c \<noteq> t"
  shows "pairs_inv c t (V \<union> set ks) (fold (pair_step c t) ks P)"
  using assms(1-4)
proof (induction ks arbitrary: V P)
  case Nil
  then show ?case by simp
next
  case (Cons k ks)
  have 1: "pairs_inv c t (insert k V) (pair_step c t k P)"
    by (rule pairs_inv_step [where n = n]) (use Cons.prems assms(5-7) in auto)
  have "pairs_inv c t (insert k V \<union> set ks) (fold (pair_step c t) ks (pair_step c t k P))"
    by (rule Cons.IH [OF 1]) (use Cons.prems in auto)
  then show ?case by simp
qed

lemma dict_get_swap_pair:
  "dict_get (swap_pair (a, b) m) k =
     (if k = b then dict_get m a else if k = a then dict_get m b else dict_get m k)"
  by (simp add: swap_pair_def dict_get_dict_set)

lemma map_of_swap_pair: "k \<noteq> a \<Longrightarrow> k \<noteq> b \<Longrightarrow> map_of (swap_pair (a, b) m) k = map_of m k"
  by (simp add: swap_pair_def map_of_dict_set)

lemma keys_swap_pair: "fst ` set (swap_pair (a, b) m) = {a, b} \<union> fst ` set m"
  by (auto simp: swap_pair_def keys_dict_set)

lemma distinct_swap_pair: "distinct (map fst m) \<Longrightarrow> distinct (map fst (swap_pair p m))"
  by (cases p) (simp add: swap_pair_def distinct_dict_set)

lemma keys_fold_swap: "fst ` set (fold swap_pair P m) = set (flat P) \<union> fst ` set m"
proof (induction P arbitrary: m)
  case Nil
  then show ?case by simp
next
  case (Cons p P)
  obtain a b where p: "p = (a, b)" by (cases p)
  show ?case unfolding p by (auto simp add: Cons.IH keys_swap_pair)
qed

lemma distinct_fold_swap: "distinct (map fst m) \<Longrightarrow> distinct (map fst (fold swap_pair P m))"
  by (induction P arbitrary: m) (simp_all add: distinct_swap_pair)

lemma map_of_fold_swap: "k \<notin> set (flat P) \<Longrightarrow> map_of (fold swap_pair P m) k = map_of m k"
proof (induction P arbitrary: m)
  case Nil
  then show ?case by simp
next
  case (Cons p P)
  obtain a b where p: "p = (a, b)" by (cases p)
  show ?case using Cons.prems unfolding p by (simp add: Cons.IH map_of_swap_pair)
qed

lemma dict_get_fold_swap:
  assumes "distinct (flat P)" and "\<forall>(a, b)\<in>set P. b = f a \<and> f b = a"
  shows "dict_get (fold swap_pair P m) k =
           (if k \<in> set (flat P) then dict_get m (f k) else dict_get m k)"
  using assms
proof (induction P arbitrary: m k)
  case Nil
  then show ?case by simp
next
  case (Cons p P)
  obtain a where p: "p = (a, f a)" using Cons.prems(2) by (cases p) auto
  have ab: "f (f a) = a" "a \<noteq> f a" "a \<notin> set (flat P)" "f a \<notin> set (flat P)"
    and dP: "distinct (flat P)" and fP: "\<forall>(a, b)\<in>set P. b = f a \<and> f b = a"
    using Cons.prems unfolding p by auto
  have closed: "f k \<in> set (flat P)" if "k \<in> set (flat P)"
    using that fP by (fastforce simp: set_flat)
  have IH: "dict_get (fold swap_pair P (swap_pair (a, f a) m)) x =
      (if x \<in> set (flat P) then dict_get (swap_pair (a, f a) m) (f x)
       else dict_get (swap_pair (a, f a) m) x)" for x
    by (rule Cons.IH [OF dP fP])
  show ?case
  proof (cases "k \<in> set (flat P)")
    case True
    then have "f k \<noteq> a" "f k \<noteq> f a" using closed ab by auto
    then show ?thesis using True unfolding p by (simp add: IH dict_get_swap_pair)
  next
    case False
    then show ?thesis using ab unfolding p by (auto simp add: IH dict_get_swap_pair)
  qed
qed

lemma entangle_loop_pure:
  assumes wf: "wf_register n d" and ct: "c < n" "t < n"
  shows "entangle_loop (int c) (int t) d
           = Inr (fold swap_pair (fold (pair_step c t) (map fst d) []) d)"
proof -
  have "efold (swap_candidate (int c) (int t)) (map fst d) []
          = Inr (fold (pair_step c t) (map fst d) [])"
  proof (rule efold_pure)
    fix x P assume "x \<in> set (map fst d)"
    then have "length x = n" using wf by (auto simp: wf_register_def bitstring_def)
    then show "swap_candidate (int c) (int t) x P = Inr (pair_step c t x P)"
      using ct by (simp add: swap_candidate_pure)
  qed
  then show ?thesis by (simp add: entangle_loop_def ebind_def)
qed

lemma pairs_of_register:
  assumes wf: "wf_register n d" and ct: "c < n" "t < n" "c \<noteq> t"
  shows "pairs_inv c t (fst ` set d) (fold (pair_step c t) (map fst d) [])"
proof -
  have "pairs_inv c t ({} \<union> set (map fst d)) (fold (pair_step c t) (map fst d) [])"
    by (rule pairs_inv_fold [where n = n])
       (use wf ct in \<open>auto simp: pairs_inv_def wf_register_def\<close>)
  then show ?thesis by simp
qed

lemma flat_pairs_swap_set:
  assumes "pairs_inv c t (fst ` set d) P" and wf: "wf_register n d" and t: "t < n"
  shows "set (flat P) = swap_set c t d"
proof (rule set_eqI)
  fix k
  show "k \<in> set (flat P) \<longleftrightarrow> k \<in> swap_set c t d"
  proof
    assume "k \<in> set (flat P)"
    then show "k \<in> swap_set c t d"
      using assms by (fastforce simp: set_flat pairs_inv_def swap_set_def)
  next
    assume "k \<in> swap_set c t d"
    then obtain v where v: "v \<in> fst ` set d" "v ! c = CHR ''1''" "k = v \<or> k = partner t v"
      by (auto simp: swap_set_def)
    then have "v \<in> set (flat P)" using assms by (auto simp: pairs_inv_def)
    then consider b where "(v, b) \<in> set P" | a where "(a, v) \<in> set P"
      by (auto simp: set_flat)
    then show "k \<in> set (flat P)"
    proof cases
      case 1
      then have "b = partner t v" using assms by (auto simp: pairs_inv_def)
      then show ?thesis using 1 v(3) by (auto simp: set_flat)
    next
      case 2
      then have a: "a \<in> fst ` set d" "v = partner t a"
        using assms(1) by (auto simp: pairs_inv_def)
      then have "bitstring n a" using wf by (auto simp: wf_register_def)
      then have "partner t v = a" using a(2) t by (simp add: partner_partner)
      then show ?thesis using 2 v(3) by (auto simp: set_flat)
    qed
  qed
qed


lemma entangle_loop_result:
  assumes wf: "wf_register n d" and ct: "c < n" "t < n" "c \<noteq> t"
  shows "\<exists>d'. entangle_loop (int c) (int t) d = Inr d'
           \<and> wf_register n d'
           \<and> fst ` set d' = swap_set c t d \<union> fst ` set d
           \<and> (\<forall>k. k \<notin> swap_set c t d \<longrightarrow> map_of d' k = map_of d k)
           \<and> (\<forall>k. dict_get d' k =
                  (if k \<in> swap_set c t d then dict_get d (partner t k) else dict_get d k))"
proof -
  define P where "P = fold (pair_step c t) (map fst d) []"
  define d' where "d' = fold swap_pair P d"
  have run: "entangle_loop (int c) (int t) d = Inr d'"
    unfolding d'_def P_def using wf ct(1,2) by (rule entangle_loop_pure)
  have inv: "pairs_inv c t (fst ` set d) P"
    unfolding P_def using wf ct by (rule pairs_of_register)
  have S: "set (flat P) = swap_set c t d"
    using inv wf ct(2) by (rule flat_pairs_swap_set)
  have bits: "bitstring n k" if "k \<in> swap_set c t d" for k
    using that wf by (auto simp: swap_set_def wf_register_def bitstring_partner)
  have keys: "fst ` set d' = swap_set c t d \<union> fst ` set d"
    by (simp add: d'_def keys_fold_swap S)
  have "wf_register n d'"
    using wf bits by (auto simp: wf_register_def d'_def distinct_fold_swap keys_fold_swap S
        simp del: set_map)
  moreover have "\<forall>k. k \<notin> swap_set c t d \<longrightarrow> map_of d' k = map_of d k"
    by (simp add: d'_def map_of_fold_swap S)
  moreover have "\<forall>k. dict_get d' k =
      (if k \<in> swap_set c t d then dict_get d (partner t k) else dict_get d k)"
  proof
    fix k
    have "\<forall>(a, b)\<in>set P. b = partner t a \<and> partner t b = a"
    proof clarify
      fix a b assume ab: "(a, b) \<in> set P"
      then have "a \<in> fst ` set d" "b = partner t a" using inv by (auto simp: pairs_inv_def)
      moreover then have "bitstring n a" using wf by (auto simp: wf_register_def)
      ultimately show "b = partner t a \<and> partner t b = a"
        using ct(2) by (simp add: partner_partner)
    qed
    with inv have "dict_get (fold swap_pair P d) k =
        (if k \<in> set (flat P) then dict_get d (partner t k) else dict_get d k)"
      by (intro dict_get_fold_swap) (auto simp: pairs_inv_def)
    then show "dict_get d' k =
        (if k \<in> swap_set c t d then dict_get d (partner t k) else dict_get d k)"
      by (simp add: d'_def S)
  qed
  ultimately show ?thesis using run keys by blast
qed

lemma swap_set_control: "c \<noteq> t \<Longrightarrow> k \<in> swap_set c t d \<Longrightarrow> k ! c = CHR ''1''"
  by (auto simp: swap_set_def partner_control)

lemma swap_set_partner:
  assumes "wf_register n d" "t < n" "k \<in> swap_set c t d"
  shows "partner t k \<in> swap_set c t d"
proof -
  from assms(3) obtain v where v: "v \<in> fst ` set d" "v ! c = CHR ''1''" "k = v \<or> k = partner t v"
    by (auto simp: swap_set_def)
  then have "bitstring n v" using assms(1) by (auto simp: wf_register_def)
  then have "partner t (partner t v) = v" using assms(2) by (simp add: partner_partner)
  then show ?thesis using v by (auto simp: swap_set_def)
qed

lemma swap_set_again:
  assumes wf: "wf_register n d" and ct: "t < n" "c \<noteq> t"
    and keys: "fst ` set d' = swap_set c t d \<union> fst ` set d"
  shows "swap_set c t d' = swap_set c t d"
proof (rule set_eqI)
  fix k
  show "k \<in> swap_set c t d' \<longleftrightarrow> k \<in> swap_set c t d"
  proof
    assume "k \<in> swap_set c t d'"
    then obtain v where v: "v \<in> fst ` set d'" "v ! c = CHR ''1''" "k = v \<or> k = partner t v"
      by (auto simp: swap_set_def)
    have "v \<in> swap_set c t d"
      using v(1,2) unfolding keys by (auto simp: swap_set_def)
    then show "k \<in> swap_set c t d"
      using v(3) swap_set_partner [OF wf ct(1)] by auto
  next
    assume "k \<in> swap_set c t d"
    then show "k \<in> swap_set c t d'"
      unfolding swap_set_def keys by auto
  qed
qed

text \<open>
  C4: on a register of \<open>N\<close>-bit states, with control and target distinct and in
  \<open>[0, N)\<close>, the entangling operator succeeds, and every basis state whose control bit is
  \<^verbatim>\<open>0\<close> keeps its entry (present with the same amplitude, or absent) and so its amplitude.
\<close>

theorem entangle_fixes_control_zero:
  assumes "wf_register (nat (num_qubits qc)) (amplitudes qc)"
    and "0 \<le> c" "c < num_qubits qc" "0 \<le> t" "t < num_qubits qc" "c \<noteq> t"
  shows "\<exists>qc'. entangle_qubits c t qc = Inr qc'
           \<and> (\<forall>k. k ! nat c = CHR ''0'' \<longrightarrow>
                 map_of (amplitudes qc') k = map_of (amplitudes qc) k
                 \<and> get_amplitude qc' k = get_amplitude qc k)"
proof -
  let ?n = "nat (num_qubits qc)"
  have ct: "nat c < ?n" "nat t < ?n" "nat c \<noteq> nat t" using assms(2-6) by auto
  obtain d' where d': "entangle_loop (int (nat c)) (int (nat t)) (amplitudes qc) = Inr d'"
    "\<forall>k. k \<notin> swap_set (nat c) (nat t) (amplitudes qc) \<longrightarrow> map_of d' k = map_of (amplitudes qc) k"
    using entangle_loop_result [OF assms(1) ct] by blast
  have run: "entangle_qubits c t qc = Inr (qc\<lparr>amplitudes := d'\<rparr>)"
    using d'(1) assms(2,4) by (simp add: entangle_qubits_def ebind_def)
  have "map_of d' k = map_of (amplitudes qc) k" if "k ! nat c = CHR ''0''" for k
  proof -
    have "k \<notin> swap_set (nat c) (nat t) (amplitudes qc)"
      using swap_set_control [OF ct(3), of k] that by auto
    then show ?thesis using d'(2) by simp
  qed
  then show ?thesis using run by (simp add: get_amplitude_def dict_get_def)
qed

theorem entangle_fixes_control_zero_witness:
  "\<exists>qc'. entangle_qubits 0 1 \<lparr>num_qubits = 2, amplitudes = [(''00'', h), (''10'', h)]\<rparr> = Inr qc'
      \<and> get_amplitude qc' ''00'' = h \<and> get_amplitude qc' ''01'' = 0"
proof -
  have wf: "wf_register (nat 2) [(''00'', h), (''10'', h)]"
    by (simp add: wf_register_def bitstring_def)
  show ?thesis
    using entangle_fixes_control_zero
      [of "\<lparr>num_qubits = 2, amplitudes = [(''00'', h), (''10'', h)]\<rparr>" 0 1] wf
    by (auto simp: get_amplitude_def dict_get_def)
qed

text \<open>
  C3: on a register of \<open>N\<close>-bit states, with control and target distinct and in
  \<open>[0, N)\<close>, applying the entangling operator twice succeeds both times and gives back the
  amplitude of every basis state, a key that is absent counting as amplitude 0.
\<close>

theorem entangle_twice:
  assumes "wf_register (nat (num_qubits qc)) (amplitudes qc)"
    and "0 \<le> c" "c < num_qubits qc" "0 \<le> t" "t < num_qubits qc" "c \<noteq> t"
  shows "\<exists>qc1 qc2. entangle_qubits c t qc = Inr qc1 \<and> entangle_qubits c t qc1 = Inr qc2
           \<and> num_qubits qc2 = num_qubits qc
           \<and> (\<forall>k. get_amplitude qc2 k = get_amplitude qc k)"
proof -
  let ?n = "nat (num_qubits qc)" and ?c = "nat c" and ?t = "nat t" and ?d = "amplitudes qc"
  have ct: "?c < ?n" "?t < ?n" "?c \<noteq> ?t" using assms(2-6) by auto
  have ints: "int ?c = c" "int ?t = t" using assms(2,4) by auto
  obtain d1 where d1: "entangle_loop c t ?d = Inr d1" "wf_register ?n d1"
    "fst ` set d1 = swap_set ?c ?t ?d \<union> fst ` set ?d"
    "\<forall>k. dict_get d1 k =
        (if k \<in> swap_set ?c ?t ?d then dict_get ?d (partner ?t k) else dict_get ?d k)"
    using entangle_loop_result [OF assms(1) ct] unfolding ints by blast
  obtain d2 where d2: "entangle_loop c t d1 = Inr d2"
    "\<forall>k. dict_get d2 k =
        (if k \<in> swap_set ?c ?t d1 then dict_get d1 (partner ?t k) else dict_get d1 k)"
    using entangle_loop_result [OF d1(2) ct] unfolding ints by blast
  have S: "swap_set ?c ?t d1 = swap_set ?c ?t ?d"
    using assms(1) ct(2,3) d1(3) by (rule swap_set_again)
  have restored: "dict_get d2 k = dict_get ?d k" for k
  proof (cases "k \<in> swap_set ?c ?t ?d")
    case True
    then obtain v where v: "v \<in> fst ` set ?d" "k = v \<or> k = partner ?t v"
      by (auto simp: swap_set_def)
    then have "bitstring ?n v" using assms(1) by (auto simp: wf_register_def)
    then have "bitstring ?n k" using v(2) by (auto simp: bitstring_partner)
    then have pp: "partner ?t (partner ?t k) = k" using ct(2) by (simp add: partner_partner)
    have "partner ?t k \<in> swap_set ?c ?t ?d"
      using swap_set_partner [OF assms(1) ct(2) True] .
    then show ?thesis using True d2(2) d1(4) S pp by simp
  next
    case False
    then show ?thesis using d2(2) d1(4) S by simp
  qed
  have "entangle_qubits c t qc = Inr (qc\<lparr>amplitudes := d1\<rparr>)"
    using d1(1) by (simp add: entangle_qubits_def ebind_def)
  moreover have "entangle_qubits c t (qc\<lparr>amplitudes := d1\<rparr>) = Inr (qc\<lparr>amplitudes := d2\<rparr>)"
    using d2(1) by (simp add: entangle_qubits_def ebind_def)
  ultimately show ?thesis using restored by (simp add: get_amplitude_def)
qed

theorem entangle_twice_witness:
  "\<exists>qc1 qc2. entangle_qubits 0 1 \<lparr>num_qubits = 2, amplitudes = [(''00'', h), (''10'', h)]\<rparr> = Inr qc1
      \<and> entangle_qubits 0 1 qc1 = Inr qc2
      \<and> get_amplitude qc2 ''10'' = h \<and> get_amplitude qc2 ''11'' = 0"
proof -
  have wf: "wf_register (nat 2) [(''00'', h), (''10'', h)]"
    by (simp add: wf_register_def bitstring_def)
  show ?thesis
    using entangle_twice
      [of "\<lparr>num_qubits = 2, amplitudes = [(''00'', h), (''10'', h)]\<rparr>" 0 1] wf
    by (auto simp: get_amplitude_def dict_get_def)
qed

section \<open>Indices out of range\<close>

lemma py_index_out: "int n \<le> i \<or> i < - int n \<Longrightarrow> py_index n i = Inl IndexError"
  by (auto simp: py_index_def)

lemma py_index_wrap: "- int n \<le> i \<Longrightarrow> i < 0 \<Longrightarrow> py_index n i = py_index n (int n + i)"
  by (auto simp: py_index_def)

lemma gate_item_out:
  assumes "int (length s) \<le> t \<or> t < - int (length s)"
  shows "gate_item M t (s, a) acc = Inl IndexError"
  using assms by (simp add: gate_item_def py_getitem_out ebind_def)

lemma gate_loop_out:
  assumes "wf_register n d" "d \<noteq> []" "int n \<le> t \<or> t < - int n"
  shows "gate_loop M t d = Inl IndexError"
proof -
  obtain s a rest where d: "d = (s, a) # rest" using assms(2) by (cases d) auto
  then have "length s = n" using assms(1) by (simp add: wf_register_def bitstring_def)
  then have "gate_item M t (s, a) [] = Inl IndexError"
    using assms(3) by (simp add: gate_item_out)
  then show ?thesis by (simp add: gate_loop_def d)
qed

lemma gate_item_wrap:
  assumes "length s = n" "- int n \<le> t" "t < 0"
  shows "gate_item M t (s, a) acc = gate_item M (int n + t) (s, a) acc"
proof -
  have eq: "py_index (length s) t = py_index (length s) (int n + t)"
    using assms by (simp add: py_index_wrap)
  have "gate_row M t s a b = gate_row M (int n + t) s a b" for b
    by (simp add: gate_row_def py_setitem_def eq fun_eq_iff cong: if_cong)
  then show ?thesis by (simp add: gate_item_def py_getitem_def eq del: efold.simps)
qed

lemma gate_loop_wrap:
  assumes "wf_register n d" "- int n \<le> t" "t < 0"
  shows "gate_loop M t d = gate_loop M (int n + t) d"
  unfolding gate_loop_def
proof (rule efold_cong)
  fix x acc assume "x \<in> set d"
  then have "length (fst x) = n" using assms(1) by (auto simp: wf_register_def bitstring_def)
  then show "gate_item M t x acc = gate_item M (int n + t) x acc"
    using gate_item_wrap [OF _ assms(2,3), of "fst x" M "snd x" acc] by simp
qed

lemma swap_candidate_out_control:
  assumes "int (length s) \<le> c \<or> c < - int (length s)"
  shows "swap_candidate c t s P = Inl IndexError"
  using assms by (simp add: swap_candidate_def py_getitem_out ebind_def)

lemma entangle_loop_out_control:
  assumes "wf_register n d" "d \<noteq> []" "int n \<le> c \<or> c < - int n"
  shows "entangle_loop c t d = Inl IndexError"
proof -
  obtain s a rest where d: "d = (s, a) # rest" using assms(2) by (cases d) auto
  then have "length s = n" using assms(1) by (simp add: wf_register_def bitstring_def)
  then have "swap_candidate c t s [] = Inl IndexError"
    using assms(3) by (simp add: swap_candidate_out_control)
  then show ?thesis by (simp add: entangle_loop_def d ebind_def)
qed

lemma swap_candidate_out_target:
  assumes "c < length s" "int (length s) \<le> t \<or> t < - int (length s)"
  shows "swap_candidate (int c) t s P = (if s ! c = CHR ''1'' then Inl IndexError else Inr P)"
  using assms by (simp add: swap_candidate_def py_getitem_out py_getitem_nat ebind_def)

lemma efold_out_target:
  assumes "\<forall>s\<in>set ks. length s = n" "c < n" "int n \<le> t \<or> t < - int n"
  shows "efold (swap_candidate (int c) t) ks P =
           (if \<exists>s\<in>set ks. s ! c = CHR ''1'' then Inl IndexError else Inr P)"
  using assms(1)
proof (induction ks)
  case Nil
  then show ?case by simp
next
  case (Cons k ks)
  have "swap_candidate (int c) t k P = (if k ! c = CHR ''1'' then Inl IndexError else Inr P)"
    using Cons.prems assms(2,3) by (simp add: swap_candidate_out_target)
  then show ?case using Cons by simp
qed

lemma entangle_loop_out_target:
  assumes "wf_register n d" "c < n" "int n \<le> t \<or> t < - int n"
  shows "entangle_loop (int c) t d =
           (if \<exists>s\<in>fst ` set d. s ! c = CHR ''1'' then Inl IndexError else Inr d)"
proof -
  have "\<forall>s\<in>set (map fst d). length s = n"
    using assms(1) by (auto simp: wf_register_def bitstring_def)
  then have "efold (swap_candidate (int c) t) (map fst d) [] =
           (if \<exists>s\<in>set (map fst d). s ! c = CHR ''1'' then Inl IndexError else Inr [])"
    using assms(2,3) by (rule efold_out_target)
  then show ?thesis by (simp add: entangle_loop_def ebind_def)
qed

lemma swap_candidate_wrap_control:
  assumes "length s = n" "- int n \<le> c" "c < 0"
  shows "swap_candidate c t s P = swap_candidate (int n + c) t s P"
proof -
  have eq: "py_index (length s) c = py_index (length s) (int n + c)"
    using assms by (simp add: py_index_wrap)
  show ?thesis by (simp add: swap_candidate_def py_getitem_def eq)
qed

lemma swap_candidate_wrap_target:
  assumes "length s = n" "- int n \<le> t" "t < 0"
  shows "swap_candidate c t s P = swap_candidate c (int n + t) s P"
proof -
  have eq: "py_index (length s) t = py_index (length s) (int n + t)"
    using assms by (simp add: py_index_wrap)
  show ?thesis by (simp add: swap_candidate_def py_getitem_def py_setitem_def eq cong: if_cong)
qed

lemma entangle_loop_wrap_control:
  assumes "wf_register n d" "- int n \<le> c" "c < 0"
  shows "entangle_loop c t d = entangle_loop (int n + c) t d"
proof -
  have "efold (swap_candidate c t) (map fst d) [] = efold (swap_candidate (int n + c) t) (map fst d) []"
  proof (rule efold_cong)
    fix x P assume "x \<in> set (map fst d)"
    then have "length x = n" using assms(1) by (auto simp: wf_register_def bitstring_def)
    then show "swap_candidate c t x P = swap_candidate (int n + c) t x P"
      using assms(2,3) by (rule swap_candidate_wrap_control)
  qed
  then show ?thesis by (simp add: entangle_loop_def)
qed

lemma entangle_loop_wrap_target:
  assumes "wf_register n d" "- int n \<le> t" "t < 0"
  shows "entangle_loop c t d = entangle_loop c (int n + t) d"
proof -
  have "efold (swap_candidate c t) (map fst d) [] = efold (swap_candidate c (int n + t)) (map fst d) []"
  proof (rule efold_cong)
    fix x P assume "x \<in> set (map fst d)"
    then have "length x = n" using assms(1) by (auto simp: wf_register_def bitstring_def)
    then show "swap_candidate c t x P = swap_candidate c (int n + t) x P"
      using assms(2,3) by (rule swap_candidate_wrap_target)
  qed
  then show ?thesis by (simp add: entangle_loop_def)
qed

text \<open>
  C7, as stated, fails: equal control and target indices are accepted, and so is a negative
  index down to \<open>-N\<close>, which Python counts from the end of the state.
\<close>

theorem invalid_index_counterexample:
  "entangle_qubits 0 0 \<lparr>num_qubits = 2, amplitudes = [(''10'', 1)]\<rparr>
     = Inr \<lparr>num_qubits = 2, amplitudes = [(''10'', 0), (''00'', 1)]\<rparr>
   \<and> apply_gate PauliX (- 1) \<lparr>num_qubits = 2, amplitudes = [(''00'', 1)]\<rparr>
     = Inr \<lparr>num_qubits = 2, amplitudes = [(''01'', 1)]\<rparr>"
  by (simp add: entangle_qubits_def entangle_loop_def swap_candidate_def swap_pair_def
      apply_gate_def gate_loop_def gate_item_def gate_row_def PauliX_def py_defs dict_get_def)

text \<open>
  C7, amended: on a non-empty register of \<open>N\<close>-bit states, the gate applicator fails with an
  index error when the target is at least \<open>N\<close> or below \<open>-N\<close>; the entangling operator fails
  with an index error when the control is at least \<open>N\<close> or below \<open>-N\<close>, and, for a control
  in \<open>[0, N)\<close> and a target at least \<open>N\<close> or below \<open>-N\<close>, it fails with an index error when
  some state present has control bit 1 and otherwise returns the computer unchanged.  Equal
  control and target in \<open>[0, N)\<close> are accepted without failure, and an index \<open>i\<close> in
  \<open>[-N, 0)\<close> is accepted and acts as the index \<open>N + i\<close>.
\<close>

theorem index_preconditions:
  assumes "wf_register n (amplitudes qc)" and "amplitudes qc \<noteq> []"
  shows "(int n \<le> t \<or> t < - int n \<longrightarrow> apply_gate M t qc = Inl IndexError)
       \<and> (int n \<le> c \<or> c < - int n \<longrightarrow> entangle_qubits c t qc = Inl IndexError)
       \<and> (0 \<le> c \<and> c < int n \<and> (int n \<le> t \<or> t < - int n) \<longrightarrow>
            entangle_qubits c t qc =
              (if \<exists>s\<in>fst ` set (amplitudes qc). s ! nat c = CHR ''1''
               then Inl IndexError else Inr qc))
       \<and> (0 \<le> c \<and> c < int n \<longrightarrow> (\<exists>qc'. entangle_qubits c c qc = Inr qc'))
       \<and> (- int n \<le> t \<and> t < 0 \<longrightarrow>
            apply_gate M t qc = apply_gate M (int n + t) qc
            \<and> entangle_qubits c t qc = entangle_qubits c (int n + t) qc)
       \<and> (- int n \<le> c \<and> c < 0 \<longrightarrow>
            entangle_qubits c t qc = entangle_qubits (int n + c) t qc)"
proof (intro conjI impI)
  assume "int n \<le> t \<or> t < - int n"
  then show "apply_gate M t qc = Inl IndexError"
    using assms by (simp add: apply_gate_def gate_loop_out ebind_def)
next
  assume "int n \<le> c \<or> c < - int n"
  then show "entangle_qubits c t qc = Inl IndexError"
    using assms by (simp add: entangle_qubits_def entangle_loop_out_control ebind_def)
next
  assume a: "0 \<le> c \<and> c < int n \<and> (int n \<le> t \<or> t < - int n)"
  then have "entangle_loop (int (nat c)) t (amplitudes qc) =
      (if \<exists>s\<in>fst ` set (amplitudes qc). s ! nat c = CHR ''1''
       then Inl IndexError else Inr (amplitudes qc))"
    using assms(1) by (intro entangle_loop_out_target) auto
  then show "entangle_qubits c t qc =
      (if \<exists>s\<in>fst ` set (amplitudes qc). s ! nat c = CHR ''1'' then Inl IndexError else Inr qc)"
    using a by (simp add: entangle_qubits_def ebind_def)
next
  assume a: "0 \<le> c \<and> c < int n"
  then have "entangle_loop (int (nat c)) (int (nat c)) (amplitudes qc)
      = Inr (fold swap_pair (fold (pair_step (nat c) (nat c)) (map fst (amplitudes qc)) [])
          (amplitudes qc))"
    using assms(1) by (intro entangle_loop_pure) auto
  then show "\<exists>qc'. entangle_qubits c c qc = Inr qc'"
    using a by (simp add: entangle_qubits_def ebind_def)
next
  assume "- int n \<le> t \<and> t < 0"
  then show "apply_gate M t qc = apply_gate M (int n + t) qc"
    using assms(1) gate_loop_wrap [of n "amplitudes qc" t M] by (simp add: apply_gate_def)
next
  assume "- int n \<le> t \<and> t < 0"
  then show "entangle_qubits c t qc = entangle_qubits c (int n + t) qc"
    using assms(1) entangle_loop_wrap_target [of n "amplitudes qc" t c]
    by (simp add: entangle_qubits_def)
next
  assume "- int n \<le> c \<and> c < 0"
  then show "entangle_qubits c t qc = entangle_qubits (int n + c) t qc"
    using assms(1) entangle_loop_wrap_control [of n "amplitudes qc" c t]
    by (simp add: entangle_qubits_def)
qed

theorem index_preconditions_witness:
  "apply_gate PauliX 2 \<lparr>num_qubits = 2, amplitudes = [(''10'', 1)]\<rparr> = Inl IndexError
   \<and> entangle_qubits (- 3) 2 \<lparr>num_qubits = 2, amplitudes = [(''10'', 1)]\<rparr> = Inl IndexError
   \<and> entangle_qubits 0 2 \<lparr>num_qubits = 2, amplitudes = [(''10'', 1)]\<rparr> = Inl IndexError
   \<and> entangle_qubits 1 2 \<lparr>num_qubits = 2, amplitudes = [(''10'', 1)]\<rparr>
       = Inr \<lparr>num_qubits = 2, amplitudes = [(''10'', 1)]\<rparr>
   \<and> (\<exists>qc'. entangle_qubits 1 1 \<lparr>num_qubits = 2, amplitudes = [(''10'', 1)]\<rparr> = Inr qc')
   \<and> apply_gate PauliX (- 1) \<lparr>num_qubits = 2, amplitudes = [(''10'', 1)]\<rparr>
       = apply_gate PauliX 1 \<lparr>num_qubits = 2, amplitudes = [(''10'', 1)]\<rparr>
   \<and> entangle_qubits (- 2) (- 1) \<lparr>num_qubits = 2, amplitudes = [(''10'', 1)]\<rparr>
       = entangle_qubits 0 1 \<lparr>num_qubits = 2, amplitudes = [(''10'', 1)]\<rparr>"
proof -
  let ?qc = "\<lparr>num_qubits = 2, amplitudes = [(''10'', 1 :: complex)]\<rparr>"
  have wf: "wf_register 2 (amplitudes ?qc)" "amplitudes ?qc \<noteq> []"
    by (simp_all add: wf_register_def bitstring_def)
  from index_preconditions [OF wf, of 2 PauliX "- 3"]
  have a: "apply_gate PauliX 2 ?qc = Inl IndexError"
    "entangle_qubits (- 3) 2 ?qc = Inl IndexError" by simp_all
  from index_preconditions [OF wf, of 2 PauliX 0]
  have b: "entangle_qubits 0 2 ?qc = Inl IndexError" by simp
  from index_preconditions [OF wf, of 2 PauliX 1]
  have c: "entangle_qubits 1 2 ?qc = Inr ?qc" "\<exists>qc'. entangle_qubits 1 1 ?qc = Inr qc'"
    by simp_all
  from index_preconditions [OF wf, of "- 1" PauliX "- 2"]
  have d1: "apply_gate PauliX (- 1) ?qc = apply_gate PauliX 1 ?qc" by simp
  from index_preconditions [OF wf, of "- 1" PauliX "- 2", simplified]
  have d2: "entangle_qubits (- 2) (- 1) ?qc = entangle_qubits 0 (- 1) ?qc" by blast
  from index_preconditions [OF wf, of "- 1" PauliX 0]
  have e: "entangle_qubits 0 (- 1) ?qc = entangle_qubits 0 1 ?qc" by simp
  show ?thesis using a b c d1 trans [OF d2 e] by blast
qed

section \<open>Single-qubit gates\<close>

lemma gate_2x2_nth: "gate_2x2 M \<Longrightarrow> r < 2 \<Longrightarrow> length M = 2 \<and> length (M ! r) = 2"
  by (simp add: gate_2x2_def)

lemma bitstring_bit:
  assumes "bitstring n s" "t < n"
  shows "py_int (s ! t) = Inr (bit_of (s ! t))" "bit_of (s ! t) < 2" "s ! t = py_str (bit_of (s ! t))"
  using bitstring_nth [OF assms] by (auto simp: py_int_def bit_of_def py_str_def)

lemma gate_row_pure:
  assumes "gate_2x2 M" "t < length s" "r < 2" "bit_of (s ! t) < 2"
  shows "gate_row M (int t) s a (bit_of (s ! t)) r acc = Inr (row_step M t s a r acc)"
  using assms gate_2x2_nth [OF assms(1,3)]
  by (simp add: gate_row_def row_step_def py_getitem_nat py_setitem_nat ebind_def Let_def)

lemma gate_item_pure:
  assumes "gate_2x2 M" "bitstring n s" "t < n"
  shows "gate_item M (int t) (s, a) acc = Inr (item_step M t (s, a) acc)"
proof -
  have len: "t < length s" using assms(2,3) by (simp add: bitstring_def)
  note b = bitstring_bit [OF assms(2,3)]
  have rows: "gate_row M (int t) s a (bit_of (s ! t)) r x = Inr (row_step M t s a r x)"
    if "r < 2" for r x
    using assms(1) len that b(2) by (rule gate_row_pure)
  show ?thesis
    by (simp add: gate_item_def py_getitem_nat len b(1) ebind_def rows item_step_def)
qed

lemma gate_loop_pure:
  assumes "gate_2x2 M" "wf_register n d" "t < n"
  shows "gate_loop M (int t) d = Inr (fold (item_step M t) d [])"
  unfolding gate_loop_def
proof (rule efold_pure)
  fix x acc assume "x \<in> set d"
  then have "bitstring n (fst x)" using assms(2) by (auto simp: wf_register_def)
  then show "gate_item M (int t) x acc = Inr (item_step M t x acc)"
    using gate_item_pure [OF assms(1) _ assms(3), of "fst x" "snd x" acc] by simp
qed

subsection \<open>Keys\<close>

lemma keys_row_step:
  "k \<in> fst ` set (row_step M t s a r acc) \<Longrightarrow> k = s[t := py_str r] \<or> k \<in> fst ` set acc"
  by (auto simp: row_step_def Let_def keys_dict_set split: if_splits)

lemma distinct_row_step:
  "distinct (map fst acc) \<Longrightarrow> distinct (map fst (row_step M t s a r acc))"
  by (simp add: row_step_def Let_def distinct_dict_set)

lemma keys_item_step:
  assumes "k \<in> fst ` set (item_step M t x acc)"
  shows "k = (fst x)[t := CHR ''0''] \<or> k = (fst x)[t := CHR ''1''] \<or> k \<in> fst ` set acc"
proof -
  from assms have "k = (fst x)[t := py_str 1]
      \<or> k \<in> fst ` set (row_step M t (fst x) (snd x) 0 acc)"
    unfolding item_step_def by (rule keys_row_step)
  then show ?thesis
    using keys_row_step [of k M t "fst x" "snd x" 0 acc] by (auto simp: py_str_def)
qed

lemma distinct_item_step:
  "distinct (map fst acc) \<Longrightarrow> distinct (map fst (item_step M t x acc))"
  by (simp add: item_step_def distinct_row_step)

lemma keys_fold_item:
  "k \<in> fst ` set (fold (item_step M t) xs acc) \<Longrightarrow>
     k \<in> fst ` set acc \<or> (\<exists>s\<in>fst ` set xs. k = s[t := CHR ''0''] \<or> k = s[t := CHR ''1''])"
proof (induction xs arbitrary: acc)
  case Nil
  then show ?case by simp
next
  case (Cons x xs)
  from Cons.prems have "k \<in> fst ` set (fold (item_step M t) xs (item_step M t x acc))"
    by simp
  from Cons.IH [OF this] show ?case
  proof
    assume "k \<in> fst ` set (item_step M t x acc)"
    from keys_item_step [OF this] show ?thesis by auto
  next
    assume "\<exists>s\<in>fst ` set xs. k = s[t := CHR ''0''] \<or> k = s[t := CHR ''1'']"
    then show ?thesis by auto
  qed
qed

lemma distinct_fold_item:
  "distinct (map fst acc) \<Longrightarrow> distinct (map fst (fold (item_step M t) xs acc))"
  by (induction xs arbitrary: acc) (simp_all add: distinct_item_step)

lemma gate_loop_wf:
  assumes "wf_register n d"
  shows "wf_register n (fold (item_step M t) d [])"
proof -
  have "bitstring n k" if "k \<in> fst ` set (fold (item_step M t) d [])" for k
  proof -
    from keys_fold_item [OF that]
    obtain s where s: "s \<in> fst ` set d" "k = s[t := CHR ''0''] \<or> k = s[t := CHR ''1'']"
      by auto
    then have "bitstring n s" using assms by (auto simp: wf_register_def)
    then show ?thesis using s(2) by (auto simp: bitstring_update)
  qed
  then show ?thesis by (simp add: wf_register_def distinct_fold_item del: set_map)
qed

text \<open>
  C10: on a register of \<open>N\<close>-bit states, with a target in \<open>[0, N)\<close> and a matrix of two
  rows of two entries, the gate applicator succeeds and keeps the qubit count; every key
  of the new register is a key of the old one with at most the character at the target
  position changed, so the new register is again a register of \<open>N\<close>-bit states.
\<close>

theorem apply_gate_keys:
  assumes "wf_register (nat (num_qubits qc)) (amplitudes qc)"
    and "0 \<le> t" "t < num_qubits qc" "gate_2x2 M"
  shows "\<exists>qc'. apply_gate M t qc = Inr qc'
           \<and> num_qubits qc' = num_qubits qc
           \<and> wf_register (nat (num_qubits qc)) (amplitudes qc')
           \<and> (\<forall>k\<in>fst ` set (amplitudes qc').
                 \<exists>s\<in>fst ` set (amplitudes qc). \<exists>c. k = s[nat t := c] \<and> length k = length s)"
proof -
  let ?n = "nat (num_qubits qc)" and ?d = "amplitudes qc"
  let ?d' = "fold (item_step M (nat t)) ?d []"
  have t: "nat t < ?n" "int (nat t) = t" using assms(2,3) by auto
  have "gate_loop M t ?d = Inr ?d'"
    using gate_loop_pure [OF assms(4,1) t(1)] unfolding t(2) .
  then have run: "apply_gate M t qc = Inr (qc\<lparr>amplitudes := ?d'\<rparr>)"
    by (simp add: apply_gate_def ebind_def)
  have wf': "wf_register ?n ?d'" using assms(1) by (rule gate_loop_wf)
  have "\<exists>s\<in>fst ` set ?d. \<exists>c. k = s[nat t := c] \<and> length k = length s"
    if "k \<in> fst ` set ?d'" for k
  proof -
    from keys_fold_item [OF that]
    obtain s where s: "s \<in> fst ` set ?d" "k = s[nat t := CHR ''0''] \<or> k = s[nat t := CHR ''1'']"
      by auto
    then show ?thesis by (intro bexI [of _ s]) auto
  qed
  then show ?thesis using run wf' by simp
qed

theorem apply_gate_keys_witness:
  "\<exists>qc'. apply_gate Hadamard 0 \<lparr>num_qubits = 2, amplitudes = [(''01'', 1)]\<rparr> = Inr qc'
      \<and> num_qubits qc' = 2
      \<and> (\<forall>k\<in>fst ` set (amplitudes qc'). \<exists>c. k = ''01''[0 := c] \<and> length k = 2)"
proof -
  have "wf_register (nat 2) [(''01'', 1)]" "gate_2x2 Hadamard"
    by (simp_all add: wf_register_def bitstring_def gate_2x2_def Hadamard_def)
  then show ?thesis
    using apply_gate_keys [of "\<lparr>num_qubits = 2, amplitudes = [(''01'', 1)]\<rparr>" 0 Hadamard]
    by (simp add: numeral_2_eq_2) blast
qed

subsection \<open>Amplitudes\<close>

lemma kept_0 [simp]: "kept 0 = 0"
  by (simp add: kept_def)

lemma kept_cases: "kept z = 0 \<or> (kept z = z \<and> 1 / 10 ^ 9 \<le> cmod z)"
  by (simp add: kept_def)

lemma dict_get_row_step:
  "dict_get (row_step M t s a r acc) k =
     dict_get acc k + (if k = s[t := py_str r] then kept (M ! r ! bit_of (s ! t) * a) else 0)"
  by (simp add: row_step_def Let_def kept_def dict_get_dict_set)

lemma dict_get_item_step:
  "dict_get (item_step M t x acc) k = dict_get acc k + contrib M t x k"
  by (simp add: item_step_def contrib_def dict_get_row_step py_str_def)

lemma dict_get_fold_item:
  "dict_get (fold (item_step M t) xs acc) k = dict_get acc k + (\<Sum>x\<leftarrow>xs. contrib M t x k)"
  by (induction xs arbitrary: acc) (simp_all add: dict_get_item_step add.assoc)

lemma update_eq_iff:
  assumes "length k = length s" "t < length s"
  shows "k = s[t := c] \<longleftrightarrow> k ! t = c \<and> (\<forall>i<length s. i \<noteq> t \<longrightarrow> k ! i = s ! i)"
  using assms by (auto simp: list_eq_iff_nth_eq nth_list_update)

lemma contrib_bitstring:
  assumes "bitstring n s" "bitstring n k" "t < n"
  shows "contrib M t (s, a) k =
     (if s = k[t := CHR ''0''] then kept (M ! bit_of (k ! t) ! 0 * a) else 0)
     + (if s = k[t := CHR ''1''] then kept (M ! bit_of (k ! t) ! 1 * a) else 0)"
proof -
  have len: "length k = length s" "length s = length k" "t < length s" "t < length k"
    using assms by (auto simp: bitstring_def)
  have s: "s ! t = CHR ''0'' \<or> s ! t = CHR ''1''" using assms(1,3) by (rule bitstring_nth)
  have k: "k ! t = CHR ''0'' \<or> k ! t = CHR ''1''" using assms(2,3) by (rule bitstring_nth)
  have 1: "k = s[t := c] \<longleftrightarrow> k ! t = c \<and> (\<forall>i<n. i \<noteq> t \<longrightarrow> k ! i = s ! i)" for c
    using update_eq_iff [OF len(1,3)] assms(1) by (simp add: bitstring_def)
  have 2: "s = k[t := c] \<longleftrightarrow> s ! t = c \<and> (\<forall>i<n. i \<noteq> t \<longrightarrow> k ! i = s ! i)" for c
    using update_eq_iff [OF len(2,4), of c] assms(2) by (auto simp add: bitstring_def)
  show ?thesis
    unfolding contrib_def fst_conv snd_conv 1 2 using s k by (auto simp: bit_of_def)
qed

lemma sum_absent_key:
  "k \<notin> fst ` set d \<Longrightarrow> (\<Sum>x\<leftarrow>d. if fst x = k then f (snd x) else 0) = (0 :: complex)"
  by (induction d) auto

lemma sum_at_key:
  assumes "distinct (map fst d)" "f 0 = (0 :: complex)"
  shows "(\<Sum>x\<leftarrow>d. if fst x = k then f (snd x) else 0) = f (dict_get d k)"
  using assms(1)
proof (induction d)
  case Nil
  then show ?case by (simp add: dict_get_def assms(2))
next
  case (Cons x d)
  show ?case
  proof (cases "fst x = k")
    case True
    then have "k \<notin> fst ` set d" using Cons.prems by auto
    then have "(\<Sum>x\<leftarrow>d. if fst x = k then f (snd x) else 0) = 0"
      by (rule sum_absent_key)
    then show ?thesis using True by (cases x) (simp add: dict_get_def)
  next
    case False
    then show ?thesis using Cons by (cases x) (simp add: dict_get_def)
  qed
qed

lemma gate_loop_amplitude:
  assumes wf: "wf_register n d" and k: "bitstring n k" and t: "t < n"
  shows "dict_get (fold (item_step M t) d []) k =
           kept (M ! bit_of (k ! t) ! 0 * dict_get d (k[t := CHR ''0'']))
           + kept (M ! bit_of (k ! t) ! 1 * dict_get d (k[t := CHR ''1'']))"
proof -
  let ?r = "bit_of (k ! t)"
  let ?A = "\<lambda>x. if fst x = k[t := CHR ''0''] then kept (M ! ?r ! 0 * snd x) else 0"
  let ?B = "\<lambda>x. if fst x = k[t := CHR ''1''] then kept (M ! ?r ! 1 * snd x) else 0"
  have eq: "map (\<lambda>x. contrib M t x k) d = map (\<lambda>x. ?A x + ?B x) d"
  proof (rule map_cong [OF refl])
    fix x assume "x \<in> set d"
    then have "bitstring n (fst x)" using wf by (auto simp: wf_register_def)
    from contrib_bitstring [OF this k t, of M "snd x"]
    show "contrib M t x k = ?A x + ?B x" by simp
  qed
  have "(\<Sum>x\<leftarrow>d. contrib M t x k) = (\<Sum>x\<leftarrow>d. ?A x + ?B x)"
    by (simp only: eq)
  also have "\<dots> = (\<Sum>x\<leftarrow>d. ?A x) + (\<Sum>x\<leftarrow>d. ?B x)"
    by (rule sum_list_addf)
  also have "(\<Sum>x\<leftarrow>d. ?A x) = kept (M ! ?r ! 0 * dict_get d (k[t := CHR ''0'']))"
    using wf by (intro sum_at_key [where f = "\<lambda>a. kept (M ! ?r ! 0 * a)"])
      (auto simp: wf_register_def)
  also have "(\<Sum>x\<leftarrow>d. ?B x) = kept (M ! ?r ! 1 * dict_get d (k[t := CHR ''1'']))"
    using wf by (intro sum_at_key [where f = "\<lambda>a. kept (M ! ?r ! 1 * a)"])
      (auto simp: wf_register_def)
  finally show ?thesis by (simp add: dict_get_fold_item dict_get_absent)
qed

section \<open>Entries of small magnitude\<close>

lemma h_sq: "h * h = 1 / 2"
proof -
  have "h * h = complex_of_real ((1 / sqrt 2) * (1 / sqrt 2))"
    unfolding h_def by (simp only: of_real_mult)
  also have "(1 / sqrt 2) * (1 / sqrt 2) = (1 / 2 :: real)" by (simp add: field_simps)
  finally show ?thesis by simp
qed

lemma hadamard_twice:
  "gate_loop Hadamard 0 [(''0'', h), (''1'', h)] = Inr [(''0'', 1), (''1'', 0)]"
  by (simp add: Hadamard_h gate_loop_def gate_item_def gate_row_def py_defs dict_get_def
      h_sq norm_divide Let_def)

text \<open>
  C5: the code at two failing inputs.  The entangling operator leaves the state \<^verbatim>\<open>10\<close>,
  whose partner was absent, in the register with amplitude 0; and the Hadamard gate, applied
  to the two-entry register it produced from \<^verbatim>\<open>0\<close>, stores for \<^verbatim>\<open>1\<close> the sum of the two
  contributions \<open>1/2\<close> and \<open>-1/2\<close>, which is 0.  Both entries have a magnitude below
  \<open>1e-9\<close>.
\<close>

theorem sparsity_failing_input:
  "entangle_qubits 0 1 \<lparr>num_qubits = 2, amplitudes = [(''00'', h), (''10'', h)]\<rparr>
     = Inr \<lparr>num_qubits = 2, amplitudes = [(''00'', h), (''10'', 0), (''11'', h)]\<rparr>
   \<and> apply_gate Hadamard 0 \<lparr>num_qubits = 1, amplitudes = [(''0'', h), (''1'', h)]\<rparr>
     = Inr \<lparr>num_qubits = 1, amplitudes = [(''0'', 1), (''1'', 0)]\<rparr>
   \<and> cmod (0 :: complex) < 1 / 10 ^ 9"
  by (simp add: entangle_qubits_def apply_gate_def entangle_00_10 hadamard_twice ebind_def)

section \<open>Total probability under a gate\<close>

lemma prob_sum_keys:
  assumes "distinct (map fst d)"
  shows "sum_list (map prob d) = (\<Sum>k\<in>fst ` set d. (cmod (dict_get d k))\<^sup>2)"
  using assms
proof (induction d)
  case Nil
  then show ?case by simp
next
  case (Cons x d)
  obtain k v where x: "x = (k, v)" by (cases x)
  have k: "k \<notin> fst ` set d" using Cons.prems by (auto simp: x)
  have "(\<Sum>j\<in>fst ` set d. (cmod (dict_get ((k, v) # d) j))\<^sup>2)
      = (\<Sum>j\<in>fst ` set d. (cmod (dict_get d j))\<^sup>2)"
    by (rule sum.cong) (use k in \<open>auto simp: dict_get_def\<close>)
  then show ?case using Cons k by (simp add: x prob_def dict_get_def)
qed

lemma prob_sum_superset:
  assumes "distinct (map fst d)" "finite K" "fst ` set d \<subseteq> K"
  shows "sum_list (map prob d) = (\<Sum>k\<in>K. (cmod (dict_get d k))\<^sup>2)"
proof -
  have "(\<Sum>k\<in>fst ` set d. (cmod (dict_get d k))\<^sup>2) = (\<Sum>k\<in>K. (cmod (dict_get d k))\<^sup>2)"
    by (rule sum.mono_neutral_left) (use assms in \<open>auto simp: dict_get_absent\<close>)
  then show ?thesis using prob_sum_keys [OF assms(1)] by simp
qed

lemma pair_split:
  fixes g :: "string \<Rightarrow> real"
  assumes "\<forall>s\<in>S. t < length s" "finite S"
  shows "(\<Sum>k\<in>(\<lambda>s. s[t := CHR ''0'']) ` S \<union> (\<lambda>s. s[t := CHR ''1'']) ` S. g k)
       = (\<Sum>k\<in>(\<lambda>s. s[t := CHR ''0'']) ` S. g k + g (k[t := CHR ''1'']))"
proof -
  let ?K0 = "(\<lambda>s. s[t := CHR ''0'']) ` S" and ?K1 = "(\<lambda>s. s[t := CHR ''1'']) ` S"
  have K0: "k ! t = CHR ''0'' \<and> t < length k" if "k \<in> ?K0" for k
    using that assms(1) by auto
  have K1: "k ! t = CHR ''1''" if "k \<in> ?K1" for k
    using that assms(1) by auto
  have disj: "?K0 \<inter> ?K1 = {}"
  proof (rule ccontr)
    assume "?K0 \<inter> ?K1 \<noteq> {}"
    then obtain k where "k \<in> ?K0" "k \<in> ?K1" by blast
    then show False using K0 [of k] K1 [of k] by simp
  qed
  have img: "?K1 = (\<lambda>k. k[t := CHR ''1'']) ` ?K0"
    by (simp add: image_image)
  have inj: "inj_on (\<lambda>k. k[t := CHR ''1'']) ?K0"
  proof (rule inj_onI)
    fix k k' assume k: "k \<in> ?K0" "k' \<in> ?K0" and eq: "k[t := CHR ''1''] = k'[t := CHR ''1'']"
    have a: "k[t := CHR ''0''] = k" "k'[t := CHR ''0''] = k'"
      using K0 [OF k(1)] K0 [OF k(2)] list_update_id [of k t] list_update_id [of k' t]
      by simp_all
    have "(k[t := CHR ''1''])[t := CHR ''0''] = (k'[t := CHR ''1''])[t := CHR ''0'']"
      by (simp only: eq)
    then show "k = k'" using a by simp
  qed
  have "(\<Sum>k\<in>?K0 \<union> ?K1. g k) = (\<Sum>k\<in>?K0. g k) + (\<Sum>k\<in>?K1. g k)"
    using assms(2) disj by (intro sum.union_disjoint) auto
  also have "(\<Sum>k\<in>?K1. g k) = (\<Sum>k\<in>?K0. g (k[t := CHR ''1'']))"
    unfolding img using inj by (simp add: sum.reindex)
  finally show ?thesis by (simp add: sum.distrib)
qed

lemma prob_sum_pairs:
  assumes wf: "wf_register n d" and t: "t < n"
    and d': "distinct (map fst d')"
    and keys: "\<forall>k\<in>fst ` set d'. \<exists>s\<in>fst ` set d. k = s[t := CHR ''0''] \<or> k = s[t := CHR ''1'']"
  shows "sum_list (map prob d')
       = (\<Sum>k\<in>(\<lambda>s. s[t := CHR ''0'']) ` fst ` set d.
            (cmod (dict_get d' k))\<^sup>2 + (cmod (dict_get d' (k[t := CHR ''1''])))\<^sup>2)"
proof -
  let ?S = "fst ` set d"
  let ?K = "(\<lambda>s. s[t := CHR ''0'']) ` ?S \<union> (\<lambda>s. s[t := CHR ''1'']) ` ?S"
  have len: "\<forall>s\<in>?S. t < length s" using wf t by (auto simp: wf_register_def bitstring_def)
  have sub: "fst ` set d' \<subseteq> ?K"
  proof
    fix k assume "k \<in> fst ` set d'"
    with keys obtain s where "s \<in> ?S" "k = s[t := CHR ''0''] \<or> k = s[t := CHR ''1'']"
      by meson
    then show "k \<in> ?K" by (elim disjE) (simp_all del: set_map)
  qed
  have fin: "finite ?K" by simp
  have "sum_list (map prob d') = (\<Sum>k\<in>?K. (cmod (dict_get d' k))\<^sup>2)"
    using d' fin sub by (rule prob_sum_superset)
  also have "\<dots> = (\<Sum>k\<in>(\<lambda>s. s[t := CHR ''0'']) ` ?S.
            (cmod (dict_get d' k))\<^sup>2 + (cmod (dict_get d' (k[t := CHR ''1''])))\<^sup>2)"
    by (rule pair_split [OF len]) simp
  finally show ?thesis .
qed

lemma partner_cases:
  assumes "bitstring n s" "t < n"
  shows "(s ! t = CHR ''0'' \<and> s[t := CHR ''0''] = s \<and> s[t := CHR ''1''] = partner t s)
       \<or> (s ! t = CHR ''1'' \<and> s[t := CHR ''1''] = s \<and> s[t := CHR ''0''] = partner t s)"
  using bitstring_nth [OF assms] assms
  by (auto simp: partner_def list_update_same_conv bitstring_def)

lemma keys_self_pairs:
  assumes wf: "wf_register n d" and t: "t < n"
  shows "\<forall>k\<in>fst ` set d. \<exists>s\<in>fst ` set d. k = s[t := CHR ''0''] \<or> k = s[t := CHR ''1'']"
proof
  fix k assume k: "k \<in> fst ` set d"
  then have "bitstring n k" using wf by (auto simp: wf_register_def)
  from partner_cases [OF this t] have "k = k[t := CHR ''0''] \<or> k = k[t := CHR ''1'']" by auto
  then show "\<exists>s\<in>fst ` set d. k = s[t := CHR ''0''] \<or> k = s[t := CHR ''1'']"
    using k by blast
qed

lemma gate_pair_amplitudes:
  assumes wf: "wf_register n d" and t: "t < n" and s: "s \<in> fst ` set d"
  defines "k0 \<equiv> s[t := CHR ''0'']" and "k1 \<equiv> s[t := CHR ''1'']"
  shows "dict_get (fold (item_step M t) d []) k0 =
           kept (M ! 0 ! 0 * dict_get d k0) + kept (M ! 0 ! 1 * dict_get d k1)"
    and "dict_get (fold (item_step M t) d []) k1 =
           kept (M ! 1 ! 0 * dict_get d k0) + kept (M ! 1 ! 1 * dict_get d k1)"
proof -
  have bs: "bitstring n s" using wf s by (auto simp: wf_register_def)
  then have len: "t < length s" using t by (simp add: bitstring_def)
  have b0: "bitstring n k0" and b1: "bitstring n k1"
    using bs by (simp_all add: k0_def k1_def bitstring_update)
  have k0: "bit_of (k0 ! t) = 0" "k0[t := CHR ''0''] = k0" "k0[t := CHR ''1''] = k1"
    using len by (simp_all add: k0_def k1_def bit_of_def)
  have k1: "bit_of (k1 ! t) = 1" "k1[t := CHR ''0''] = k0" "k1[t := CHR ''1''] = k1"
    using len by (simp_all add: k0_def k1_def bit_of_def)
  show "dict_get (fold (item_step M t) d []) k0 =
           kept (M ! 0 ! 0 * dict_get d k0) + kept (M ! 0 ! 1 * dict_get d k1)"
    using gate_loop_amplitude [OF wf b0 t, of M] by (simp only: k0)
  show "dict_get (fold (item_step M t) d []) k1 =
           kept (M ! 1 ! 0 * dict_get d k0) + kept (M ! 1 ! 1 * dict_get d k1)"
    using gate_loop_amplitude [OF wf b1 t, of M] by (simp only: k1)
qed

lemma gate_loop_prob_pairs:
  assumes wf: "wf_register n d" and t: "t < n"
  shows "sum_list (map prob (fold (item_step M t) d []))
       = (\<Sum>k\<in>(\<lambda>s. s[t := CHR ''0'']) ` fst ` set d.
            (cmod (kept (M ! 0 ! 0 * dict_get d k)
                   + kept (M ! 0 ! 1 * dict_get d (k[t := CHR ''1'']))))\<^sup>2
            + (cmod (kept (M ! 1 ! 0 * dict_get d k)
                   + kept (M ! 1 ! 1 * dict_get d (k[t := CHR ''1'']))))\<^sup>2)"
proof -
  let ?d' = "fold (item_step M t) d []"
  let ?K0 = "(\<lambda>s. s[t := CHR ''0'']) ` fst ` set d"
  let ?one = "\<lambda>k. k[t := CHR ''1'']"
  have d': "distinct (map fst ?d')" by (simp add: distinct_fold_item)
  have keys': "\<forall>k\<in>fst ` set ?d'. \<exists>s\<in>fst ` set d. k = s[t := CHR ''0''] \<or> k = s[t := CHR ''1'']"
    using keys_fold_item [of _ M t d "[]"] by auto
  have new: "sum_list (map prob ?d')
      = (\<Sum>k\<in>?K0. (cmod (dict_get ?d' k))\<^sup>2 + (cmod (dict_get ?d' (?one k)))\<^sup>2)"
    using wf t d' keys' by (rule prob_sum_pairs)
  show ?thesis unfolding new
  proof (rule sum.cong [OF refl])
    fix k assume "k \<in> ?K0"
    then obtain s where s: "s \<in> fst ` set d" "k = s[t := CHR ''0'']" by auto
    have one: "?one k = s[t := CHR ''1'']" by (simp add: s(2))
    note amp = gate_pair_amplitudes [OF wf t s(1), of M, folded s(2) one]
    show "(cmod (dict_get ?d' k))\<^sup>2 + (cmod (dict_get ?d' (?one k)))\<^sup>2
        = (cmod (kept (M ! 0 ! 0 * dict_get d k) + kept (M ! 0 ! 1 * dict_get d (?one k))))\<^sup>2
          + (cmod (kept (M ! 1 ! 0 * dict_get d k) + kept (M ! 1 ! 1 * dict_get d (?one k))))\<^sup>2"
      by (simp only: amp)
  qed
qed

subsection \<open>How much the pruning can change the total probability\<close>

lemma cmod_add_sq: "(cmod (u + v))\<^sup>2 = (cmod u)\<^sup>2 + (cmod v)\<^sup>2 + 2 * Re (u * cnj v)"
  unfolding cmod_power2 by (simp add: power2_eq_square algebra_simps)

lemma small_sq:
  assumes "cmod z < 1 / 10 ^ 9"
  shows "(cmod z)\<^sup>2 \<le> 1 / 10 ^ 18"
proof -
  have "(cmod z)\<^sup>2 \<le> (1 / 10 ^ 9)\<^sup>2"
    using assms by (intro power_mono) simp_all
  then show ?thesis by (simp add: power_divide)
qed

lemma kept_pair_cases:
  fixes p q :: complex
  defines "E \<equiv> (cmod (kept p + kept q))\<^sup>2 - (cmod p)\<^sup>2 - (cmod q)\<^sup>2"
  shows "(\<not> cmod p < 1 / 10 ^ 9 \<and> \<not> cmod q < 1 / 10 ^ 9 \<and> E = 2 * Re (p * cnj q))
       \<or> ((cmod p < 1 / 10 ^ 9 \<or> cmod q < 1 / 10 ^ 9) \<and> - (2 / 10 ^ 18) \<le> E \<and> E \<le> 0)"
proof (cases "cmod p < 1 / 10 ^ 9")
  case True
  note p = this
  show ?thesis
  proof (cases "cmod q < 1 / 10 ^ 9")
    case True
    then show ?thesis
      using p small_sq [OF p] small_sq [OF True] by (simp add: E_def kept_def)
  next
    case False
    then show ?thesis
      using p small_sq [OF p] by (simp add: E_def kept_def)
  qed
next
  case False
  note p = this
  show ?thesis
  proof (cases "cmod q < 1 / 10 ^ 9")
    case True
    then show ?thesis
      using p small_sq [OF True] by (simp add: E_def kept_def)
  next
    case False
    then show ?thesis
      using p by (simp add: E_def kept_def cmod_add_sq)
  qed
qed

lemma young_step: "2 / 10 ^ 9 * (a :: real) \<le> a\<^sup>2 / 2000000 + 2 / 10 ^ 12"
proof -
  have "0 \<le> (a - 2 / 1000)\<^sup>2" by simp
  then show ?thesis by (simp add: power2_eq_square algebra_simps)
qed

lemma cross_small_left:
  assumes "cmod p < 1 / 10 ^ 9"
  shows "\<bar>2 * Re (p * cnj q)\<bar> \<le> (cmod q)\<^sup>2 / 2000000 + 2 / 10 ^ 12"
proof -
  have "\<bar>Re (p * cnj q)\<bar> \<le> cmod (p * cnj q)" by (rule abs_Re_le_cmod)
  also have "\<dots> = cmod p * cmod q" by (simp add: norm_mult)
  also have "\<dots> \<le> 1 / 10 ^ 9 * cmod q"
    using assms by (intro mult_right_mono) simp_all
  finally have "\<bar>Re (p * cnj q)\<bar> \<le> 1 / 10 ^ 9 * cmod q" .
  moreover have "\<bar>2 * Re (p * cnj q)\<bar> = 2 * \<bar>Re (p * cnj q)\<bar>"
    by (simp only: abs_mult abs_numeral)
  ultimately have "\<bar>2 * Re (p * cnj q)\<bar> \<le> 2 / 10 ^ 9 * cmod q" by linarith
  then show ?thesis using young_step [of "cmod q"] by linarith
qed

lemma cross_small:
  assumes "cmod p < 1 / 10 ^ 9 \<or> cmod q < 1 / 10 ^ 9"
  shows "\<bar>2 * Re (p * cnj q)\<bar> \<le> ((cmod p)\<^sup>2 + (cmod q)\<^sup>2) / 2000000 + 2 / 10 ^ 12"
proof -
  have split: "((cmod p)\<^sup>2 + (cmod q)\<^sup>2) / 2000000
      = (cmod p)\<^sup>2 / 2000000 + (cmod q)\<^sup>2 / 2000000"
    by (rule add_divide_distrib)
  have nonneg: "0 \<le> (cmod p)\<^sup>2 / 2000000" "0 \<le> (cmod q)\<^sup>2 / 2000000"
    by simp_all
  from assms show ?thesis
  proof
    assume "cmod p < 1 / 10 ^ 9"
    from cross_small_left [OF this, of q] show ?thesis
      using split nonneg by linarith
  next
    assume q: "cmod q < 1 / 10 ^ 9"
    have "Re (p * cnj q) = Re (q * cnj p)" by (simp add: mult.commute)
    with cross_small_left [OF q, of p] show ?thesis
      using split nonneg by linarith
  qed
qed

lemma unitary_columns:
  assumes "cnj a * a + cnj c * c = 1" "cnj b * b + cnj d * d = 1" "cnj a * b + cnj c * d = 0"
  shows "(cmod (a * x))\<^sup>2 + (cmod (c * x))\<^sup>2 = (cmod x)\<^sup>2"
    and "(cmod (b * y))\<^sup>2 + (cmod (d * y))\<^sup>2 = (cmod y)\<^sup>2"
    and "Re ((a * x) * cnj (b * y)) + Re ((c * x) * cnj (d * y)) = 0"
proof -
  have col: "(cmod u)\<^sup>2 + (cmod v)\<^sup>2 = 1" if "cnj u * u + cnj v * v = 1" for u v :: complex
  proof -
    have "complex_of_real ((cmod u)\<^sup>2 + (cmod v)\<^sup>2) = u * cnj u + v * cnj v"
      by (simp only: of_real_add complex_norm_square)
    also have "\<dots> = 1" using that by (simp add: mult.commute)
    finally show ?thesis by (simp only: of_real_eq_1_iff)
  qed
  have "(cmod (a * x))\<^sup>2 + (cmod (c * x))\<^sup>2 = ((cmod a)\<^sup>2 + (cmod c)\<^sup>2) * (cmod x)\<^sup>2"
    by (simp add: norm_mult power_mult_distrib algebra_simps)
  then show "(cmod (a * x))\<^sup>2 + (cmod (c * x))\<^sup>2 = (cmod x)\<^sup>2"
    using col [OF assms(1)] by simp
  have "(cmod (b * y))\<^sup>2 + (cmod (d * y))\<^sup>2 = ((cmod b)\<^sup>2 + (cmod d)\<^sup>2) * (cmod y)\<^sup>2"
    by (simp add: norm_mult power_mult_distrib algebra_simps)
  then show "(cmod (b * y))\<^sup>2 + (cmod (d * y))\<^sup>2 = (cmod y)\<^sup>2"
    using col [OF assms(2)] by simp
  have "cnj (cnj a * b + cnj c * d) = 0" using assms(3) by simp
  then have z: "a * cnj b + c * cnj d = 0" by simp
  have "(a * x) * cnj (b * y) + (c * x) * cnj (d * y) = (a * cnj b + c * cnj d) * (x * cnj y)"
    by (simp add: algebra_simps)
  then have "(a * x) * cnj (b * y) + (c * x) * cnj (d * y) = 0" using z by simp
  then have "Re ((a * x) * cnj (b * y) + (c * x) * cnj (d * y)) = 0" by simp
  then show "Re ((a * x) * cnj (b * y)) + Re ((c * x) * cnj (d * y)) = 0"
    by (simp only: plus_complex.sel)
qed

lemma pruned_pair:
  assumes "cnj a * a + cnj c * c = 1" "cnj b * b + cnj d * d = 1" "cnj a * b + cnj c * d = 0"
  shows "\<bar>((cmod (kept (a * x) + kept (b * y)))\<^sup>2 + (cmod (kept (c * x) + kept (d * y)))\<^sup>2)
          - ((cmod x)\<^sup>2 + (cmod y)\<^sup>2)\<bar>
     \<le> ((cmod x)\<^sup>2 + (cmod y)\<^sup>2) / 2000000 + (2 / 10 ^ 12 + 4 / 10 ^ 18)"
proof -
  let ?p = "a * x" and ?q = "b * y" and ?r = "c * x" and ?s = "d * y"
  let ?P = "(cmod x)\<^sup>2 + (cmod y)\<^sup>2"
  note u = unitary_columns(1) [OF assms, of x] unitary_columns(2) [OF assms, of y]
    unitary_columns(3) [OF assms, of x y]
  define E1 where "E1 = (cmod (kept ?p + kept ?q))\<^sup>2 - (cmod ?p)\<^sup>2 - (cmod ?q)\<^sup>2"
  define E2 where "E2 = (cmod (kept ?r + kept ?s))\<^sup>2 - (cmod ?r)\<^sup>2 - (cmod ?s)\<^sup>2"
  define c1 where "c1 = 2 * Re (?p * cnj ?q)"
  define c2 where "c2 = 2 * Re (?r * cnj ?s)"
  have diff: "((cmod (kept ?p + kept ?q))\<^sup>2 + (cmod (kept ?r + kept ?s))\<^sup>2) - ?P = E1 + E2"
    using u(1,2) by (simp add: E1_def E2_def)
  have cross: "c1 + c2 = 0" using u(3) by (simp add: c1_def c2_def)
  have P0: "0 \<le> ?P / 2000000" by simp
  have sq: "0 \<le> (cmod ?p)\<^sup>2" "0 \<le> (cmod ?q)\<^sup>2" "0 \<le> (cmod ?r)\<^sup>2" "0 \<le> (cmod ?s)\<^sup>2"
    by simp_all
  have Ppq: "((cmod ?p)\<^sup>2 + (cmod ?q)\<^sup>2) / 2000000 \<le> ?P / 2000000"
    using u(1,2) sq by (intro divide_right_mono) linarith+
  have Prs: "((cmod ?r)\<^sup>2 + (cmod ?s)\<^sup>2) / 2000000 \<le> ?P / 2000000"
    using u(1,2) sq by (intro divide_right_mono) linarith+
  have k1: "(\<not> cmod ?p < 1 / 10 ^ 9 \<and> \<not> cmod ?q < 1 / 10 ^ 9 \<and> E1 = c1)
       \<or> ((cmod ?p < 1 / 10 ^ 9 \<or> cmod ?q < 1 / 10 ^ 9) \<and> - (2 / 10 ^ 18) \<le> E1 \<and> E1 \<le> 0)"
    unfolding E1_def c1_def by (rule kept_pair_cases)
  have k2: "(\<not> cmod ?r < 1 / 10 ^ 9 \<and> \<not> cmod ?s < 1 / 10 ^ 9 \<and> E2 = c2)
       \<or> ((cmod ?r < 1 / 10 ^ 9 \<or> cmod ?s < 1 / 10 ^ 9) \<and> - (2 / 10 ^ 18) \<le> E2 \<and> E2 \<le> 0)"
    unfolding E2_def c2_def by (rule kept_pair_cases)
  have s1: "\<bar>c1\<bar> \<le> ?P / 2000000 + 2 / 10 ^ 12" if "cmod ?p < 1 / 10 ^ 9 \<or> cmod ?q < 1 / 10 ^ 9"
    using cross_small [OF that] Ppq unfolding c1_def by linarith
  have s2: "\<bar>c2\<bar> \<le> ?P / 2000000 + 2 / 10 ^ 12" if "cmod ?r < 1 / 10 ^ 9 \<or> cmod ?s < 1 / 10 ^ 9"
    using cross_small [OF that] Prs unfolding c2_def by linarith
  have "\<bar>E1 + E2\<bar> \<le> ?P / 2000000 + (2 / 10 ^ 12 + 4 / 10 ^ 18)"
  proof -
    consider (kk) "E1 = c1" "E2 = c2"
      | (kp) "E1 = c1" "cmod ?r < 1 / 10 ^ 9 \<or> cmod ?s < 1 / 10 ^ 9"
          "- (2 / 10 ^ 18) \<le> E2" "E2 \<le> 0"
      | (pk) "E2 = c2" "cmod ?p < 1 / 10 ^ 9 \<or> cmod ?q < 1 / 10 ^ 9"
          "- (2 / 10 ^ 18) \<le> E1" "E1 \<le> 0"
      | (pp) "- (2 / 10 ^ 18) \<le> E1" "E1 \<le> 0" "- (2 / 10 ^ 18) \<le> E2" "E2 \<le> 0"
      using k1 k2 by blast
    then show ?thesis
    proof cases
      case kk
      then show ?thesis using cross P0 by simp
    next
      case kp
      from s2 [OF kp(2)] cross kp(1,3,4) show ?thesis by linarith
    next
      case pk
      from s1 [OF pk(2)] cross pk(1,3,4) show ?thesis by linarith
    next
      case pp
      have "(0::real) \<le> 2 / 10 ^ 12" by simp
      moreover have "(2 / 10 ^ 18 :: real) + 2 / 10 ^ 18 = 4 / 10 ^ 18" by simp
      ultimately show ?thesis using pp P0 by linarith
    qed
  qed
  then show ?thesis unfolding diff .
qed

lemma gate_loop_norm_error:
  assumes wf: "wf_register n d" and t: "t < n" and u: "unitary M"
  shows "\<bar>sum_list (map prob (fold (item_step M t) d [])) - sum_list (map prob d)\<bar>
       \<le> sum_list (map prob d) / 2000000
         + (2 / 10 ^ 12 + 4 / 10 ^ 18) * real (card ((\<lambda>s. s[t := CHR ''0'']) ` fst ` set d))"
proof -
  let ?K0 = "(\<lambda>s. s[t := CHR ''0'']) ` fst ` set d"
  let ?one = "\<lambda>k. k[t := CHR ''1'']"
  let ?P = "\<lambda>k. (cmod (dict_get d k))\<^sup>2 + (cmod (dict_get d (?one k)))\<^sup>2"
  let ?P' = "\<lambda>k. (cmod (kept (M ! 0 ! 0 * dict_get d k)
                   + kept (M ! 0 ! 1 * dict_get d (?one k))))\<^sup>2
            + (cmod (kept (M ! 1 ! 0 * dict_get d k)
                   + kept (M ! 1 ! 1 * dict_get d (?one k))))\<^sup>2"
  let ?C = "2 / 10 ^ 12 + 4 / 10 ^ 18 :: real"
  have new: "sum_list (map prob (fold (item_step M t) d [])) = (\<Sum>k\<in>?K0. ?P' k)"
    using wf t by (rule gate_loop_prob_pairs)
  have old: "sum_list (map prob d) = (\<Sum>k\<in>?K0. ?P k)"
    using wf t _ keys_self_pairs [OF wf t] by (rule prob_sum_pairs)
      (use wf in \<open>simp add: wf_register_def\<close>)
  have un: "cnj (M ! 0 ! 0) * (M ! 0 ! 0) + cnj (M ! 1 ! 0) * (M ! 1 ! 0) = 1"
    "cnj (M ! 0 ! 1) * (M ! 0 ! 1) + cnj (M ! 1 ! 1) * (M ! 1 ! 1) = 1"
    "cnj (M ! 0 ! 0) * (M ! 0 ! 1) + cnj (M ! 1 ! 0) * (M ! 1 ! 1) = 0"
    using u by (simp_all add: unitary_def Let_def)
  have "\<bar>(\<Sum>k\<in>?K0. ?P' k) - (\<Sum>k\<in>?K0. ?P k)\<bar> = \<bar>\<Sum>k\<in>?K0. (?P' k - ?P k)\<bar>"
    by (simp only: sum_subtractf)
  also have "\<dots> \<le> (\<Sum>k\<in>?K0. \<bar>?P' k - ?P k\<bar>)" by (rule sum_abs)
  also have "\<dots> \<le> (\<Sum>k\<in>?K0. ?P k / 2000000 + ?C)"
    by (intro sum_mono pruned_pair [OF un])
  also have "\<dots> = (\<Sum>k\<in>?K0. ?P k) / 2000000 + ?C * real (card ?K0)"
  proof -
    have "(\<Sum>k\<in>?K0. ?P k / 2000000 + ?C) = (\<Sum>k\<in>?K0. ?P k / 2000000) + (\<Sum>k\<in>?K0. ?C)"
      by (rule sum.distrib)
    moreover have "(\<Sum>k\<in>?K0. ?P k / 2000000) = (\<Sum>k\<in>?K0. ?P k) / 2000000"
      by (rule sum_divide_distrib [symmetric])
    moreover have "(\<Sum>k\<in>?K0. ?C) = ?C * real (card ?K0)"
      by (simp only: sum_constant mult.commute)
    ultimately show ?thesis by (simp only:)
  qed
  finally show ?thesis unfolding new old .
qed

subsection \<open>How many pairs of states a register can hold\<close>

lemma pairs_le_entries: "card ((\<lambda>s. s[t := CHR ''0'']) ` fst ` set d) \<le> length d"
proof -
  have "card ((\<lambda>s. s[t := CHR ''0'']) ` fst ` set d) \<le> card (fst ` set d)"
    by (intro card_image_le) simp
  also have "\<dots> \<le> card (set d)" by (intro card_image_le) simp
  also have "\<dots> \<le> length d" by (rule card_length)
  finally show ?thesis .
qed

lemma bitstrings_bitstring: "s \<in> set (bitstrings n) \<Longrightarrow> bitstring n s"
proof (induction n arbitrary: s)
  case 0
  then show ?case by (simp add: bitstring_def)
next
  case (Suc n)
  then obtain c s' where s: "s = c # s'" "c = CHR ''0'' \<or> c = CHR ''1''" "s' \<in> set (bitstrings n)"
    by auto
  from Suc.IH [OF s(3)] show ?case using s(1,2) by (auto simp: bitstring_def)
qed

lemma distinct_bitstrings: "distinct (bitstrings n)"
  by (induction n) (auto simp: distinct_map)

lemma length_bitstrings: "length (bitstrings n) = 2 ^ n"
  by (induction n) simp_all

lemma bitstring_in_bitstrings: "bitstring n s \<Longrightarrow> s \<in> set (bitstrings n)"
proof (induction n arbitrary: s)
  case 0
  then show ?case by (simp add: bitstring_def)
next
  case (Suc n)
  from Suc.prems obtain c s' where s: "s = c # s'"
    by (cases s) (auto simp: bitstring_def)
  with Suc.prems have "c = CHR ''0'' \<or> c = CHR ''1''" "bitstring n s'"
    by (auto simp: bitstring_def)
  then show ?case using Suc.IH [of s'] s by auto
qed

lemma pairs_le_qubits:
  assumes wf: "wf_register n d" and t: "t < n"
  shows "card ((\<lambda>s. s[t := CHR ''0'']) ` fst ` set d) \<le> 2 ^ (n - 1)"
proof -
  let ?K0 = "(\<lambda>s. s[t := CHR ''0'']) ` fst ` set d"
  let ?f = "\<lambda>k :: string. take t k @ drop (Suc t) k"
  have K0: "bitstring n k \<and> k ! t = CHR ''0''" if "k \<in> ?K0" for k
  proof -
    from that obtain s where s: "s \<in> fst ` set d" "k = s[t := CHR ''0'']" by auto
    then have "bitstring n s" using wf by (auto simp: wf_register_def)
    then show ?thesis using s(2) t by (simp add: bitstring_update) (simp add: bitstring_def)
  qed
  have split: "k = take t k @ CHR ''0'' # drop (Suc t) k" if "k \<in> ?K0" for k
    using K0 [OF that] t id_take_nth_drop [of t k] by (simp add: bitstring_def)
  have inj: "inj_on ?f ?K0"
  proof (rule inj_onI)
    fix k k' assume k: "k \<in> ?K0" "k' \<in> ?K0" and eq: "?f k = ?f k'"
    have "length (take t k) = length (take t k')"
      using K0 [OF k(1)] K0 [OF k(2)] by (simp add: bitstring_def)
    with eq have "take t k = take t k'" "drop (Suc t) k = drop (Suc t) k'" by simp_all
    then show "k = k'" using split [OF k(1)] split [OF k(2)] by simp
  qed
  have sub: "?f ` ?K0 \<subseteq> set (bitstrings (n - 1))"
  proof
    fix s assume "s \<in> ?f ` ?K0"
    then obtain k where k: "k \<in> ?K0" "s = ?f k" by auto
    have "bitstring (n - 1) s"
      using K0 [OF k(1)] t set_take_subset [of t k] set_drop_subset [of "Suc t" k]
      unfolding k(2) bitstring_def by auto
    then show "s \<in> set (bitstrings (n - 1))" by (rule bitstring_in_bitstrings)
  qed
  have "card ?K0 = card (?f ` ?K0)" using inj by (simp add: card_image)
  also have "\<dots> \<le> card (set (bitstrings (n - 1)))" using sub by (intro card_mono) simp_all
  also have "\<dots> \<le> length (bitstrings (n - 1))" by (rule card_length)
  finally show ?thesis by (simp add: length_bitstrings)
qed

text \<open>
  C2, amended: on a register of \<open>N\<close>-bit states that has at most 18 qubits or at most
  240000 entries, and whose squared magnitudes add up to 1, with a target in \<open>[0, N)\<close> and a
  unitary matrix, the gate applicator succeeds and the squared magnitudes of the new register
  add up to 1 within \<open>1e-6\<close>.
\<close>

theorem gate_preserves_norm:
  assumes "wf_register (nat (num_qubits qc)) (amplitudes qc)"
    and "0 \<le> t" "t < num_qubits qc" "unitary M"
    and "num_qubits qc \<le> 18 \<or> length (amplitudes qc) \<le> 240000"
    and "sum_list (map prob (amplitudes qc)) = 1"
  shows "\<exists>qc'. apply_gate M t qc = Inr qc'
           \<and> \<bar>sum_list (map prob (amplitudes qc')) - 1\<bar> \<le> 1 / 10 ^ 6"
proof -
  let ?n = "nat (num_qubits qc)" and ?d = "amplitudes qc"
  let ?d' = "fold (item_step M (nat t)) ?d []"
  let ?K0 = "(\<lambda>s. s[nat t := CHR ''0'']) ` fst ` set ?d"
  have t: "nat t < ?n" "int (nat t) = t" using assms(2,3) by auto
  have g: "gate_2x2 M" using assms(4) by (simp add: unitary_def)
  have "gate_loop M t ?d = Inr ?d'"
    using gate_loop_pure [OF g assms(1) t(1)] unfolding t(2) .
  then have run: "apply_gate M t qc = Inr (qc\<lparr>amplitudes := ?d'\<rparr>)"
    by (simp add: apply_gate_def ebind_def)
  have pairs: "card ?K0 \<le> 240000"
    using assms(5)
  proof
    assume "num_qubits qc \<le> 18"
    then have "?n - 1 \<le> 17" by simp
    then have "(2::nat) ^ (?n - 1) \<le> 2 ^ 17" by (intro power_increasing) simp_all
    moreover have "card ?K0 \<le> 2 ^ (?n - 1)" using assms(1) t(1) by (rule pairs_le_qubits)
    ultimately show ?thesis by simp
  next
    assume "length ?d \<le> 240000"
    then show ?thesis using pairs_le_entries [of "nat t" ?d] by simp
  qed
  have "\<bar>sum_list (map prob ?d') - sum_list (map prob ?d)\<bar>
      \<le> sum_list (map prob ?d) / 2000000 + (2 / 10 ^ 12 + 4 / 10 ^ 18) * real (card ?K0)"
    using assms(1) t(1) assms(4) by (rule gate_loop_norm_error)
  moreover have "(2 / 10 ^ 12 + 4 / 10 ^ 18) * real (card ?K0)
      \<le> (2 / 10 ^ 12 + 4 / 10 ^ 18) * 240000"
    using pairs by (intro mult_left_mono) simp_all
  ultimately have "\<bar>sum_list (map prob ?d') - 1\<bar> \<le> 1 / 10 ^ 6"
    using assms(6) by simp
  then show ?thesis using run by simp
qed

lemma cnj_h: "cnj h = h"
  by (simp add: h_def)

lemma unitary_Hadamard: "unitary Hadamard"
  by (simp add: unitary_def gate_2x2_def Hadamard_h cnj_h h_sq)

theorem gate_preserves_norm_witness:
  "\<exists>qc'. apply_gate Hadamard 0 \<lparr>num_qubits = 2, amplitudes = [(''00'', 1)]\<rparr> = Inr qc'
      \<and> \<bar>sum_list (map prob (amplitudes qc')) - 1\<bar> \<le> 1 / 10 ^ 6"
proof -
  let ?qc = "\<lparr>num_qubits = 2, amplitudes = [(''00'', 1 :: complex)]\<rparr>"
  have wf: "wf_register (nat (num_qubits ?qc)) (amplitudes ?qc)"
    by (simp add: wf_register_def bitstring_def)
  from gate_preserves_norm [OF wf _ _ unitary_Hadamard, of 0]
  show ?thesis by (simp add: prob_def)
qed

subsection \<open>A register of 21 qubits that loses its normalisation\<close>

lemma keys_skew: "map fst (skew_register n) = bitstrings (Suc n)"
  unfolding skew_register_def by (simp only: map_map comp_def fst_conv map_ident)

lemma wf_skew: "wf_register (Suc n) (skew_register n)"
  unfolding wf_register_def keys_skew
  using bitstrings_bitstring [of _ "Suc n"] distinct_bitstrings [of "Suc n"]
    arg_cong [OF keys_skew, of set n]
  by (simp del: bitstrings.simps)

lemma zero_keys_skew:
  "(\<lambda>s. s[0 := CHR ''0'']) ` fst ` set (skew_register n) = (#) CHR ''0'' ` set (bitstrings n)"
proof -
  have "fst ` set (skew_register n) = set (bitstrings (Suc n))"
    using arg_cong [OF keys_skew, of set n] by simp
  then show ?thesis by (auto simp: image_Un image_image)
qed

lemma card_zero_keys_skew:
  "card ((\<lambda>s. s[0 := CHR ''0'']) ` fst ` set (skew_register n)) = 2 ^ n"
proof -
  have "card ((#) CHR ''0'' ` set (bitstrings n)) = card (set (bitstrings n))"
    by (intro card_image) simp
  then show ?thesis
    by (simp add: zero_keys_skew distinct_card distinct_bitstrings length_bitstrings)
qed

lemma dict_get_skew:
  assumes "s \<in> set (bitstrings n)"
  shows "dict_get (skew_register n) (CHR ''0'' # s) = complex_of_real amp_a"
    and "dict_get (skew_register n) (CHR ''1'' # s) = complex_of_real amp_b"
proof -
  have m: "map_of (skew_register n) k =
      (if k \<in> set (bitstrings (Suc n))
       then Some (complex_of_real (if k ! 0 = CHR ''0'' then amp_a else amp_b)) else None)" for k
    unfolding skew_register_def by (simp add: map_of_map_restrict restrict_map_def del: bitstrings.simps)
  show "dict_get (skew_register n) (CHR ''0'' # s) = complex_of_real amp_a"
    using assms by (simp add: dict_get_def m)
  show "dict_get (skew_register n) (CHR ''1'' # s) = complex_of_real amp_b"
    using assms by (simp add: dict_get_def m)
qed

lemma kept_rotation:
  "kept (rotation ! 0 ! 0 * complex_of_real amp_a) = complex_of_real (4 / 5 * amp_a)"
  "kept (rotation ! 0 ! 1 * complex_of_real amp_b) = 0"
  "kept (rotation ! 1 ! 0 * complex_of_real amp_a) = complex_of_real (3 / 5 * amp_a)"
  "kept (rotation ! 1 ! 1 * complex_of_real amp_b) = complex_of_real (4 / 5 * amp_b)"
  by (simp_all add: rotation_def kept_def norm_mult norm_divide amp_a_def amp_b_def)

lemma unitary_rotation: "unitary rotation"
  by (simp add: unitary_def gate_2x2_def rotation_def)

lemma skew_prob_before: "sum_list (map prob (skew_register n)) = 2 ^ n * (amp_a\<^sup>2 + amp_b\<^sup>2)"
proof -
  let ?K0 = "(\<lambda>s. s[0 := CHR ''0'']) ` fst ` set (skew_register n)"
  have "sum_list (map prob (skew_register n))
      = (\<Sum>k\<in>?K0. (cmod (dict_get (skew_register n) k))\<^sup>2
            + (cmod (dict_get (skew_register n) (k[0 := CHR ''1''])))\<^sup>2)"
    using wf_skew _ _ keys_self_pairs [OF wf_skew]
    by (rule prob_sum_pairs) (use wf_skew [of n] in \<open>simp_all add: wf_register_def\<close>)
  also have "\<dots> = (\<Sum>k\<in>?K0. amp_a\<^sup>2 + amp_b\<^sup>2)"
  proof (rule sum.cong [OF refl])
    fix k assume "k \<in> ?K0"
    then obtain s where s: "s \<in> set (bitstrings n)" "k = CHR ''0'' # s"
      unfolding zero_keys_skew by auto
    show "(cmod (dict_get (skew_register n) k))\<^sup>2
        + (cmod (dict_get (skew_register n) (k[0 := CHR ''1''])))\<^sup>2 = amp_a\<^sup>2 + amp_b\<^sup>2"
      by (simp add: s(2) dict_get_skew [OF s(1)])
  qed
  also have "\<dots> = 2 ^ n * (amp_a\<^sup>2 + amp_b\<^sup>2)"
    by (simp only: sum_constant card_zero_keys_skew) simp
  finally show ?thesis .
qed

lemma skew_prob_after:
  "sum_list (map prob (fold (item_step rotation 0) (skew_register n) []))
     = 2 ^ n * ((4 / 5 * amp_a)\<^sup>2 + (3 / 5 * amp_a + 4 / 5 * amp_b)\<^sup>2)"
proof -
  let ?K0 = "(\<lambda>s. s[0 := CHR ''0'']) ` fst ` set (skew_register n)"
  let ?c = "(4 / 5 * amp_a)\<^sup>2 + (3 / 5 * amp_a + 4 / 5 * amp_b)\<^sup>2"
  let ?d = "skew_register n"
  have "sum_list (map prob (fold (item_step rotation 0) ?d []))
      = (\<Sum>k\<in>?K0.
            (cmod (kept (rotation ! 0 ! 0 * dict_get ?d k)
                   + kept (rotation ! 0 ! 1 * dict_get ?d (k[0 := CHR ''1'']))))\<^sup>2
            + (cmod (kept (rotation ! 1 ! 0 * dict_get ?d k)
                   + kept (rotation ! 1 ! 1 * dict_get ?d (k[0 := CHR ''1'']))))\<^sup>2)"
    using wf_skew by (rule gate_loop_prob_pairs) simp
  also have "\<dots> = (\<Sum>k\<in>?K0. ?c)"
  proof (rule sum.cong [OF refl])
    fix k assume "k \<in> ?K0"
    then obtain s where s: "s \<in> set (bitstrings n)" "k = CHR ''0'' # s"
      unfolding zero_keys_skew by auto
    have k1: "k[0 := CHR ''1''] = CHR ''1'' # s" by (simp add: s(2))
    have "cmod (complex_of_real (3 / 5 * amp_a) + complex_of_real (4 / 5 * amp_b))
        = \<bar>3 / 5 * amp_a + 4 / 5 * amp_b\<bar>"
      by (simp only: of_real_add [symmetric] norm_of_real)
    then show "(cmod (kept (rotation ! 0 ! 0 * dict_get ?d k)
                   + kept (rotation ! 0 ! 1 * dict_get ?d (k[0 := CHR ''1'']))))\<^sup>2
            + (cmod (kept (rotation ! 1 ! 0 * dict_get ?d k)
                   + kept (rotation ! 1 ! 1 * dict_get ?d (k[0 := CHR ''1'']))))\<^sup>2 = ?c"
      unfolding k1 unfolding s(2) dict_get_skew [OF s(1)] kept_rotation
      by (simp only: add_0_right norm_of_real power2_abs)
  qed
  also have "\<dots> = 2 ^ n * ?c"
    by (simp only: sum_constant card_zero_keys_skew) simp
  finally show ?thesis .
qed

text \<open>
  C2, as stated, fails.  The register of 21 qubits holds all \<open>2\<^sup>2\<^sup>1\<close> basis states, with
  amplitude \<open>amp_a\<close> (about \<open>9.8e-4\<close>) on the states of first bit 0 and \<open>amp_b\<close> (about
  \<open>1.46e-9\<close>) on those of first bit 1; its squared magnitudes add up to 1.  Under the rotation
  with entries \<open>4/5\<close> and \<open>3/5\<close> on qubit 0, the contribution \<open>-3/5 * amp_b\<close> of each state
  of first bit 1 is below \<open>1e-9\<close> and is dropped, while \<open>4/5 * amp_b\<close> is kept; the
  new register sums to more than \<open>1 + 1e-6\<close>.
\<close>

theorem normalisation_counterexample:
  "unitary rotation
   \<and> wf_register 21 (skew_register 20)
   \<and> sum_list (map prob (skew_register 20)) = 1
   \<and> apply_gate rotation 0 \<lparr>num_qubits = 21, amplitudes = skew_register 20\<rparr>
       = Inr \<lparr>num_qubits = 21, amplitudes = fold (item_step rotation 0) (skew_register 20) []\<rparr>
   \<and> 1 + 1 / 10 ^ 6
       < sum_list (map prob (fold (item_step rotation 0) (skew_register 20) []))"
proof -
  have wf: "wf_register 21 (skew_register 20)" using wf_skew [of 20] by simp
  have g: "gate_2x2 rotation" using unitary_rotation by (simp add: unitary_def)
  have "gate_loop rotation (int 0) (skew_register 20)
      = Inr (fold (item_step rotation 0) (skew_register 20) [])"
    using g wf by (rule gate_loop_pure) simp
  then have run: "apply_gate rotation 0 \<lparr>num_qubits = 21, amplitudes = skew_register 20\<rparr>
       = Inr \<lparr>num_qubits = 21, amplitudes = fold (item_step rotation 0) (skew_register 20) []\<rparr>"
    by (simp add: apply_gate_def ebind_def)
  have before: "sum_list (map prob (skew_register 20)) = 1"
    unfolding skew_prob_before by (simp add: amp_a_def amp_b_def power2_eq_square)
  have after: "1 + 1 / 10 ^ 6
       < sum_list (map prob (fold (item_step rotation 0) (skew_register 20) []))"
    unfolding skew_prob_after by (simp add: amp_a_def amp_b_def power2_eq_square)
  show ?thesis using unitary_rotation wf before run after by blast
qed

end
